theory Spec2Isabelle
  imports Main "HOL-Library.Word"
begin

section \<open>The Mython lexer (lexer.h, lexer.cpp)\<close>

text \<open>
  A shallow embedding of \<^verbatim>\<open>parse::Lexer\<close> and of the readers of namespace
  \<^verbatim>\<open>util\<close>. Every function of the source that reads the stream takes the stream
  (or the lexer that owns it) and returns it updated; an exception is a value \<open>Inl e\<close>.

  Platform facts the source relies on and the model fixes:
  \<^item> \<^verbatim>\<open>char\<close> is signed and 8 bits wide, so that \<^verbatim>\<open>char ch = input.peek()\<close> turns the
    end-of-file value \<open>-1\<close> into the byte \<open>0xFF\<close> and \<^verbatim>\<open>ch == traits_type::eof()\<close> holds
    exactly for that byte;
  \<^item> \<^verbatim>\<open>int\<close> has 32 bits, \<^verbatim>\<open>size_t\<close> has 64;
  \<^item> the classification functions of \<^verbatim>\<open><cctype>\<close> run in the "C" locale.
\<close>

subsection \<open>Characters that cannot be written inside a term\<close>

abbreviation LF :: char where "LF \<equiv> CHR 0x0A"
abbreviation TAB :: char where "TAB \<equiv> CHR 0x09"
abbreviation DQUOTE :: char where "DQUOTE \<equiv> CHR 0x22"
abbreviation SQUOTE :: char where "SQUOTE \<equiv> CHR 0x27"
abbreviation BACKSLASH :: char where "BACKSLASH \<equiv> CHR 0x5C"
abbreviation EOF_CHAR :: char where "EOF_CHAR \<equiv> CHR 0xFF"

subsection \<open>Tokens (lexer.h, namespace token\_type)\<close>

text \<open>
  The variant \<^verbatim>\<open>TokenBase\<close>. Alternatives whose names are constants of HOL carry the
  suffix \<open>_tok\<close>. \<^verbatim>\<open>operator==\<close> of the source (same alternative, and equal values for the
  four alternatives that carry one) is the equality of this datatype.
\<close>

datatype token =
    Number int
  | Id_tok string
  | Char_tok char
  | String_tok string
  | Class | Return | If_tok | Else | Def | Newline | Print | Indent | Dedent
  | And | Or | Not_tok | Eq | NotEq | LessOrEq | GreaterOrEq
  | None_tok | True_tok | False_tok | Eof

text \<open>
  What the source throws while scanning: \<^verbatim>\<open>std::runtime_error("Failed to parse string : " + line)\<close>
  in \<^verbatim>\<open>ReadString\<close> (the message is not modelled) and \<^verbatim>\<open>std::out_of_range\<close> from
  \<^verbatim>\<open>std::stoi\<close> in \<^verbatim>\<open>ReadNumber\<close>. \<open>Indeterminate_read\<close> is no exception: it marks the one
  place where the source reads a local variable that was never written, so that C++ fixes
  no outcome.
\<close>

datatype error = Failed_to_parse_string | Stoi_out_of_range | Indeterminate_read

subsection \<open>The input stream\<close>

text \<open>
  \<^verbatim>\<open>std::istream\<close> as the source uses it: the characters not yet extracted and the two
  state bits that can be set (\<^verbatim>\<open>badbit\<close> never is: the stream is taken to support the
  one-character \<^verbatim>\<open>putback\<close> after a successful \<^verbatim>\<open>get\<close>, as a string stream does).
\<close>

record istream =
  buf :: string
  eofbit :: bool
  failbit :: bool

definition istringstream :: "string \<Rightarrow> istream" where
  "istringstream str = \<lparr>buf = str, eofbit = False, failbit = False\<rparr>"

definition good :: "istream \<Rightarrow> bool" where
  "good s = (\<not> eofbit s \<and> \<not> failbit s)"

text \<open>
  An unformatted input function first builds a sentry: on a stream that is not good it
  sets \<^verbatim>\<open>failbit\<close> and the function reads nothing. \<open>None\<close> is \<^verbatim>\<open>traits_type::eof()\<close>.
\<close>

definition peek :: "istream \<Rightarrow> char option \<times> istream" where
  "peek s =
     (if \<not> good s then (None, s\<lparr>failbit := True\<rparr>)
      else case buf s of
             [] \<Rightarrow> (None, s\<lparr>eofbit := True\<rparr>)
           | c # cs \<Rightarrow> (Some c, s))"

text \<open>
  Both \<^verbatim>\<open>int get()\<close> and \<^verbatim>\<open>get(char&)\<close>: \<open>None\<close> is the failed extraction (the first
  returns \<^verbatim>\<open>eof()\<close>, the second leaves its argument as it was and the stream tests false).
\<close>

definition get :: "istream \<Rightarrow> char option \<times> istream" where
  "get s =
     (if \<not> good s then (None, s\<lparr>failbit := True\<rparr>)
      else case buf s of
             [] \<Rightarrow> (None, s\<lparr>eofbit := True, failbit := True\<rparr>)
           | c # cs \<Rightarrow> (Some c, s\<lparr>buf := cs\<rparr>))"

definition putback :: "char \<Rightarrow> istream \<Rightarrow> istream" where
  "putback c s =
     (let s1 = s\<lparr>eofbit := False\<rparr>
      in if \<not> good s1 then s1\<lparr>failbit := True\<rparr> else s1\<lparr>buf := c # buf s1\<rparr>)"

text \<open>
  \<^verbatim>\<open>std::getline(input, s)\<close>: extracts up to and including the next line feed, which it
  does not store; at the end of the input it sets \<^verbatim>\<open>eofbit\<close>, and \<^verbatim>\<open>failbit\<close> too when
  it extracted nothing.
\<close>

definition getline :: "istream \<Rightarrow> string \<times> istream" where
  "getline s =
     (if \<not> good s then ([], s\<lparr>failbit := True\<rparr>)
      else let line = takeWhile (\<lambda>c. c \<noteq> LF) (buf s);
               rest = dropWhile (\<lambda>c. c \<noteq> LF) (buf s)
           in case rest of
                [] \<Rightarrow> (line, s\<lparr>buf := [], eofbit := True, failbit := (line = [])\<rparr>)
              | c # cs \<Rightarrow> (line, s\<lparr>buf := cs\<rparr>))"

text \<open>\<^verbatim>\<open>char ch = input.peek()\<close>: the conversion of the \<^verbatim>\<open>int\<close> result to \<^verbatim>\<open>char\<close>.\<close>

definition to_char :: "char option \<Rightarrow> char" where
  "to_char r = (case r of None \<Rightarrow> EOF_CHAR | Some c \<Rightarrow> c)"

subsection \<open>Namespace util: classification\<close>

definition IsNum :: "char \<Rightarrow> bool" where
  "IsNum ch = (48 \<le> (of_char ch :: nat) \<and> (of_char ch :: nat) \<le> 57)"

definition IsAlpha :: "char \<Rightarrow> bool" where
  "IsAlpha ch = ((65 \<le> (of_char ch :: nat) \<and> (of_char ch :: nat) \<le> 90) \<or>
                 (97 \<le> (of_char ch :: nat) \<and> (of_char ch :: nat) \<le> 122))"

definition IsAlNum :: "char \<Rightarrow> bool" where
  "IsAlNum ch = (IsAlpha ch \<or> IsNum ch)"

definition IsAlNumLL :: "char \<Rightarrow> bool" where
  "IsAlNumLL ch = (IsAlNum ch \<or> ch = CHR ''_'')"

subsection \<open>Namespace util: the lookup tables (lexer.h)\<close>

definition KeyWords :: "string \<Rightarrow> token option" where
  "KeyWords = map_of
     [(''class'', Class), (''return'', Return), (''if'', If_tok), (''else'', Else),
      (''def'', Def), (''print'', Print), (''and'', And), (''or'', Or), (''not'', Not_tok),
      (''None'', None_tok), (''True'', True_tok), (''False'', False_tok)]"

definition DualSymbols :: "string \<Rightarrow> token option" where
  "DualSymbols = map_of
     [(''=='', Eq), (''!='', NotEq), (''>='', GreaterOrEq), (''<='', LessOrEq)]"

subsection \<open>Namespace util: the readers\<close>

text \<open>
  \<^verbatim>\<open>ReadString\<close>. The loop \<^verbatim>\<open>while (input.get(c))\<close> carries the local \<^verbatim>\<open>c\<close> (\<open>None\<close> as long
  as no \<^verbatim>\<open>get\<close> has written it) and \<^verbatim>\<open>line\<close>. After a backslash, \<^verbatim>\<open>input.get(next)\<close> may
  fail and leave \<^verbatim>\<open>next\<close> unwritten; the loop then ends at once and the function throws,
  so what the four comparisons of \<^verbatim>\<open>next\<close> did to \<^verbatim>\<open>line\<close> is never seen, and \<open>escape\<close>
  adds nothing there.
\<close>

definition escape :: "char option \<Rightarrow> string" where
  "escape nxt =
     (case nxt of
        None \<Rightarrow> []
      | Some n \<Rightarrow>
          if n = DQUOTE then [DQUOTE]
          else if n = SQUOTE then [SQUOTE]
          else if n = CHR ''n'' then [LF]
          else if n = CHR ''t'' then [TAB]
          else [])"

function ReadString_loop :: "char \<Rightarrow> char option \<Rightarrow> string \<Rightarrow> istream \<Rightarrow> char option \<times> string \<times> istream" where
  "ReadString_loop first c line s =
     (case get s of
        (None, s1) \<Rightarrow> (c, line, s1)
      | (Some c1, s1) \<Rightarrow>
          if c1 = BACKSLASH then
            (case get s1 of (nxt, s2) \<Rightarrow> ReadString_loop first (Some c1) (line @ escape nxt) s2)
          else if c1 = first then (Some c1, line, s1)
          else ReadString_loop first (Some c1) (line @ [c1]) s1)"
  by pat_completeness auto
termination
  by (relation "measure (\<lambda>(first, c, line, s). length (buf s))")
     (auto simp: get_def split: if_splits list.splits)

declare ReadString_loop.simps [simp del]

definition ReadString :: "istream \<Rightarrow> error + (string \<times> istream)" where
  "ReadString s =
     (case get s of (f, s0) \<Rightarrow>
        let first = to_char f in
        case ReadString_loop first None [] s0 of (c, line, s1) \<Rightarrow>
          (case c of
             None \<Rightarrow> Inl Indeterminate_read
           | Some c1 \<Rightarrow> if c1 \<noteq> first then Inl Failed_to_parse_string else Inr (line, s1)))"

function ReadName_loop :: "string \<Rightarrow> istream \<Rightarrow> string \<times> istream" where
  "ReadName_loop line s =
     (case get s of
        (None, s1) \<Rightarrow> (line, s1)
      | (Some c, s1) \<Rightarrow>
          if IsAlNumLL c then ReadName_loop (line @ [c]) s1 else (line, putback c s1))"
  by pat_completeness auto
termination
  by (relation "measure (\<lambda>(line, s). length (buf s))")
     (auto simp: get_def split: if_splits list.splits)

declare ReadName_loop.simps [simp del]

definition ReadName :: "istream \<Rightarrow> string \<times> istream" where
  "ReadName s = ReadName_loop [] s"

function CountSpaces_loop :: "64 word \<Rightarrow> istream \<Rightarrow> 64 word \<times> istream" where
  "CountSpaces_loop result s =
     (case get s of
        (None, s1) \<Rightarrow> (result, s1)
      | (Some c, s1) \<Rightarrow>
          if c = CHR '' '' then CountSpaces_loop (result + 1) s1 else (result, putback c s1))"
  by pat_completeness auto
termination
  by (relation "measure (\<lambda>(result, s). length (buf s))")
     (auto simp: get_def split: if_splits list.splits)

declare CountSpaces_loop.simps [simp del]

definition CountSpaces :: "istream \<Rightarrow> 64 word \<times> istream" where
  "CountSpaces s = CountSpaces_loop 0 s"

definition ReadLine :: "istream \<Rightarrow> string \<times> istream" where
  "ReadLine s = getline s"

function ReadNumber_loop :: "string \<Rightarrow> istream \<Rightarrow> string \<times> istream" where
  "ReadNumber_loop num s =
     (case get s of
        (None, s1) \<Rightarrow> (num, s1)
      | (Some c, s1) \<Rightarrow>
          if IsNum c then ReadNumber_loop (num @ [c]) s1 else (num, putback c s1))"
  by pat_completeness auto
termination
  by (relation "measure (\<lambda>(num, s). length (buf s))")
     (auto simp: get_def split: if_splits list.splits)

declare ReadNumber_loop.simps [simp del]

text \<open>
  \<^verbatim>\<open>std::stoi\<close> on the only strings \<^verbatim>\<open>ReadNumber\<close> gives it, non-empty runs of decimal
  digits: the value, or \<^verbatim>\<open>std::out_of_range\<close> above \<^verbatim>\<open>INT_MAX\<close>.
\<close>

definition digits_value :: "string \<Rightarrow> int" where
  "digits_value num = foldl (\<lambda>a c. 10 * a + (of_char c - 48)) 0 num"

definition stoi :: "string \<Rightarrow> error + int" where
  "stoi num = (if digits_value num > 2147483647 then Inl Stoi_out_of_range
               else Inr (digits_value num))"

definition ReadNumber :: "istream \<Rightarrow> error + (int \<times> istream)" where
  "ReadNumber s =
     (case ReadNumber_loop [] s of (num, s1) \<Rightarrow>
        if num = [] then Inr (0, s1)
        else (case stoi num of Inl e \<Rightarrow> Inl e | Inr v \<Rightarrow> Inr (v, s1)))"

subsection \<open>The lexer (class parse::Lexer)\<close>

text \<open>
  The private members. \<^verbatim>\<open>input_\<close> is a reference to the caller's stream; the lexer is
  its only user while it scans, so the model keeps the stream inside the record.
\<close>

record lexer =
  input :: istream
  start_of_line :: bool
  current_indent :: "32 word"
  line_indent :: "32 word"
  current_token :: token

text \<open>\<^verbatim>\<open>ch == std::ios::traits_type::eof()\<close> for a \<^verbatim>\<open>char ch\<close>.\<close>

definition is_eof :: "char \<Rightarrow> bool" where
  "is_eof ch = (ch = EOF_CHAR)"

definition NextLine :: "lexer \<Rightarrow> lexer" where
  "NextLine l =
     (case ReadLine (input l) of (line, s) \<Rightarrow>
        l\<lparr>input := s, start_of_line := True, line_indent := 0\<rparr>)"

definition ParseEOF :: "lexer \<Rightarrow> lexer" where
  "ParseEOF l =
     (if \<not> start_of_line l then (NextLine l)\<lparr>current_token := Newline\<rparr>
      else if current_indent l > 0
           then l\<lparr>current_indent := current_indent l - 1, current_token := Dedent\<rparr>
           else l\<lparr>current_token := Eof\<rparr>)"

definition ParseIndent :: "lexer \<Rightarrow> lexer" where
  "ParseIndent l =
     (if current_indent l < line_indent l
      then l\<lparr>current_indent := current_indent l + 1, current_token := Indent\<rparr>
      else if current_indent l > line_indent l
           then l\<lparr>current_indent := current_indent l - 1, current_token := Dedent\<rparr>
           else l)"

definition ParseName :: "lexer \<Rightarrow> lexer" where
  "ParseName l =
     (case ReadName (input l) of (name, s) \<Rightarrow>
        (case KeyWords name of
           Some t \<Rightarrow> l\<lparr>input := s, current_token := t\<rparr>
         | None \<Rightarrow> l\<lparr>input := s, current_token := Id_tok name\<rparr>))"

definition ParseChar :: "lexer \<Rightarrow> lexer" where
  "ParseChar l =
     (case get (input l) of (c0, s0) \<Rightarrow>
      case peek s0 of (c1, s1) \<Rightarrow>
        let sym_pair = [to_char c0, to_char c1] in
        (case DualSymbols sym_pair of
           Some t \<Rightarrow> l\<lparr>input := snd (get s1), current_token := t\<rparr>
         | None \<Rightarrow> l\<lparr>input := s1, current_token := Char_tok (hd sym_pair)\<rparr>))"

definition ParseToken :: "lexer \<Rightarrow> error + lexer" where
  "ParseToken l =
     (case peek (input l) of (c, s) \<Rightarrow>
        let ch = to_char c; l1 = l\<lparr>input := s\<rparr> in
        if IsNum ch then
          (case ReadNumber s of
             Inl e \<Rightarrow> Inl e
           | Inr (v, s1) \<Rightarrow> Inr (l\<lparr>input := s1, current_token := Number v\<rparr>))
        else if IsAlNumLL ch then Inr (ParseName l1)
        else if ch = DQUOTE \<or> ch = SQUOTE then
          (case ReadString s of
             Inl e \<Rightarrow> Inl e
           | Inr (v, s1) \<Rightarrow> Inr (l\<lparr>input := s1, current_token := String_tok v\<rparr>))
        else Inr (ParseChar l1))"

text \<open>\<^verbatim>\<open>ParseComment\<close>'s loop, and what \<^verbatim>\<open>ParseSpaces\<close> does before it reads on.\<close>

function ParseComment_loop :: "istream \<Rightarrow> istream" where
  "ParseComment_loop s =
     (case get s of
        (None, s1) \<Rightarrow> s1
      | (Some c, s1) \<Rightarrow> if c = LF then putback c s1 else ParseComment_loop s1)"
  by pat_completeness auto
termination
  by (relation "measure (\<lambda>s. length (buf s))")
     (auto simp: get_def split: if_splits list.splits)

declare ParseComment_loop.simps [simp del]

definition skip_comment :: "lexer \<Rightarrow> lexer" where
  "skip_comment l = l\<lparr>input := ParseComment_loop (input l)\<rparr>"

definition skip_spaces :: "lexer \<Rightarrow> lexer" where
  "skip_spaces l =
     (case CountSpaces (input l) of (spaces_count, s) \<Rightarrow>
        if start_of_line l
        then l\<lparr>input := s, line_indent := ucast (spaces_count div 2)\<rparr>
        else l\<lparr>input := s\<rparr>)"

text \<open>
  What is left to extract: the measure under which \<^verbatim>\<open>ReadNextToken\<close> and the three
  handlers that call it back terminate.
\<close>

definition avail :: "istream \<Rightarrow> nat" where
  "avail s = (if good s then length (buf s) else 0)"

lemma avail_peek_char:
  assumes "peek s = (c, s1)" and "to_char c = ch" and "\<not> is_eof ch"
  shows "s1 = s \<and> good s \<and> buf s = ch # tl (buf s) \<and> 0 < avail s"
  using assms
  by (auto simp: peek_def to_char_def is_eof_def avail_def split: if_splits list.splits)

lemma avail_get_le: "avail (snd (get s)) \<le> avail s"
  by (auto simp: get_def avail_def good_def split: list.splits)

lemma good_get_Some: "get s = (Some c, s1) \<Longrightarrow> good s \<and> good s1 \<and> buf s = c # buf s1"
  by (auto simp: get_def good_def split: if_splits list.splits)

lemma avail_get_None: "get s = (None, s1) \<Longrightarrow> avail s1 = 0"
  by (auto simp: get_def good_def avail_def split: if_splits list.splits)

lemma putback_after_get: "get s = (Some c, s1) \<Longrightarrow> putback c s1 = s"
  by (auto simp: get_def putback_def good_def Let_def split: if_splits list.splits)

lemma avail_ParseComment_loop_le: "avail (ParseComment_loop s) \<le> avail s"
proof (induction s rule: ParseComment_loop.induct)
  case (1 s)
  show ?case
  proof (cases "get s")
    case (Pair r s1)
    show ?thesis
    proof (cases r)
      case None
      with Pair show ?thesis
        by (simp add: ParseComment_loop.simps [of s] avail_get_None)
    next
      case (Some c)
      with Pair have le: "avail s1 \<le> avail s"
        using avail_get_le [of s] by simp
      show ?thesis
      proof (cases "c = LF")
        case True
        with Pair Some show ?thesis
          by (simp add: ParseComment_loop.simps [of s] putback_after_get)
      next
        case False
        with Pair Some "1.IH" have "avail (ParseComment_loop s1) \<le> avail s1"
          by simp
        with le Pair Some False show ?thesis
          by (simp add: ParseComment_loop.simps [of s])
      qed
    qed
  qed
qed

lemma avail_ParseComment_loop_less:
  assumes "good s" and "buf s = c # cs" and "c \<noteq> LF"
  shows "avail (ParseComment_loop s) < avail s"
proof -
  have g: "get s = (Some c, s\<lparr>buf := cs\<rparr>)"
    using assms by (simp add: get_def)
  have "avail (ParseComment_loop (s\<lparr>buf := cs\<rparr>)) \<le> avail (s\<lparr>buf := cs\<rparr>)"
    by (rule avail_ParseComment_loop_le)
  moreover have "avail (s\<lparr>buf := cs\<rparr>) < avail s"
    using assms by (simp add: avail_def good_def)
  ultimately show ?thesis
    using g assms by (simp add: ParseComment_loop.simps [of s])
qed

lemma avail_CountSpaces_loop_le: "avail (snd (CountSpaces_loop n s)) \<le> avail s"
proof (induction n s rule: CountSpaces_loop.induct)
  case (1 n s)
  show ?case
  proof (cases "get s")
    case (Pair r s1)
    show ?thesis
    proof (cases r)
      case None
      with Pair show ?thesis
        by (simp add: CountSpaces_loop.simps [of n s] avail_get_None)
    next
      case (Some c)
      with Pair have le: "avail s1 \<le> avail s"
        using avail_get_le [of s] by simp
      show ?thesis
      proof (cases "c = CHR '' ''")
        case False
        with Pair Some show ?thesis
          by (simp add: CountSpaces_loop.simps [of n s] putback_after_get)
      next
        case True
        with Pair Some "1.IH"
        have "avail (snd (CountSpaces_loop (n + 1) s1)) \<le> avail s1"
          by simp
        with le Pair Some True show ?thesis
          by (simp add: CountSpaces_loop.simps [of n s])
      qed
    qed
  qed
qed

lemma avail_CountSpaces_less:
  assumes "good s" and "buf s = CHR '' '' # cs"
  shows "avail (snd (CountSpaces s)) < avail s"
proof -
  have g: "get s = (Some (CHR '' ''), s\<lparr>buf := cs\<rparr>)"
    using assms by (simp add: get_def)
  have "avail (snd (CountSpaces_loop 1 (s\<lparr>buf := cs\<rparr>))) \<le> avail (s\<lparr>buf := cs\<rparr>)"
    by (rule avail_CountSpaces_loop_le)
  moreover have "avail (s\<lparr>buf := cs\<rparr>) < avail s"
    using assms by (simp add: avail_def good_def)
  ultimately show ?thesis
    using g by (simp add: CountSpaces_def CountSpaces_loop.simps [of 0 s])
qed

lemma length_dropWhile_Cons: "dropWhile P xs = y # ys \<Longrightarrow> length ys < length xs"
  using length_dropWhile_le [of P xs] by simp

lemma avail_getline_le: "avail (snd (getline s)) \<le> avail s"
  by (auto simp: getline_def avail_def good_def Let_def split: list.splits
           dest: length_dropWhile_Cons less_imp_le)

lemma avail_getline_less: "0 < avail s \<Longrightarrow> avail (snd (getline s)) < avail s"
  by (auto simp: getline_def avail_def good_def Let_def split: list.splits if_splits
           dest: length_dropWhile_Cons)

text \<open>
  The termination measure of the four functions below, on the sum of their arguments in
  the order \<^verbatim>\<open>ReadNextToken\<close>, \<^verbatim>\<open>ParseComment\<close>, \<^verbatim>\<open>ParseLineEnd\<close>, \<^verbatim>\<open>ParseSpaces\<close>: a
  handler that is sure to extract a character counts less than \<^verbatim>\<open>ReadNextToken\<close> on the
  same stream, any other handler more.
\<close>

definition handler_measure :: "(lexer + lexer) + (lexer + lexer) \<Rightarrow> nat" where
  "handler_measure x =
     (case x of
        Inl (Inl l) \<Rightarrow> 3 * avail (input l) + 1
      | Inl (Inr l) \<Rightarrow>
          (if good (input l) \<and> buf (input l) \<noteq> [] \<and> hd (buf (input l)) \<noteq> LF
           then 3 * avail (input l) else 3 * avail (input l) + 2)
      | Inr (Inl l) \<Rightarrow>
          (if 0 < avail (input l) then 3 * avail (input l) else 3 * avail (input l) + 2)
      | Inr (Inr l) \<Rightarrow>
          (if good (input l) \<and> buf (input l) \<noteq> [] \<and> hd (buf (input l)) = CHR '' ''
           then 3 * avail (input l) else 3 * avail (input l) + 2))"

lemma peek_char_shape:
  assumes "(c, s) = peek (input l)" and "ch = to_char c" and "\<not> is_eof ch"
  shows "s = input l \<and> good (input l) \<and> buf (input l) \<noteq> [] \<and> hd (buf (input l)) = ch \<and>
         0 < avail (input l)"
proof -
  have "s = input l \<and> good (input l) \<and> buf (input l) = ch # tl (buf (input l)) \<and>
        0 < avail (input l)"
    using avail_peek_char [of "input l" c s ch] assms by simp
  then show ?thesis
    by (cases "buf (input l)") auto
qed

text \<open>
  \<^verbatim>\<open>ReadNextToken\<close> and the three handlers that call it back. Each equation is the body
  of the member function of that name; a thrown exception ends the call with \<open>Inl\<close>.
\<close>

function ReadNextToken :: "lexer \<Rightarrow> error + lexer"
  and ParseComment :: "lexer \<Rightarrow> error + lexer"
  and ParseLineEnd :: "lexer \<Rightarrow> error + lexer"
  and ParseSpaces :: "lexer \<Rightarrow> error + lexer"
where
  "ReadNextToken l =
     (case peek (input l) of (c, s) \<Rightarrow>
        let ch = to_char c; l1 = l\<lparr>input := s\<rparr> in
        if is_eof ch then Inr (ParseEOF l1)
        else if ch = LF then ParseLineEnd l1
        else if ch = CHR ''#'' then ParseComment l1
        else if ch = CHR '' '' then ParseSpaces l1
        else if start_of_line l1 \<and> current_indent l1 \<noteq> line_indent l1 then Inr (ParseIndent l1)
        else (case ParseToken l1 of
                Inl e \<Rightarrow> Inl e
              | Inr l2 \<Rightarrow> Inr (l2\<lparr>start_of_line := False\<rparr>)))"
| "ParseComment l = ReadNextToken (skip_comment l)"
| "ParseLineEnd l =
     (if start_of_line l then ReadNextToken (NextLine l)
      else Inr ((NextLine l)\<lparr>current_token := Newline\<rparr>))"
| "ParseSpaces l = ReadNextToken (skip_spaces l)"
  by pat_completeness auto

termination
proof (relation "measure handler_measure", goal_cases)
  case 1
  show ?case by simp
next
  case (2 l c s ch l1)
  then show ?case
    using peek_char_shape [of c s l ch]
    by (simp add: handler_measure_def)
next
  case (3 l c s ch l1)
  then show ?case
    using peek_char_shape [of c s l ch]
    by (auto simp: handler_measure_def)
next
  case (4 l c s ch l1)
  then show ?case
    using peek_char_shape [of c s l ch]
    by (auto simp: handler_measure_def)
next
  case (5 l)
  show ?case
    using avail_ParseComment_loop_le [of "input l"]
      avail_ParseComment_loop_less [of "input l" "hd (buf (input l))" "tl (buf (input l))"]
    by (cases "buf (input l)") (auto simp: handler_measure_def skip_comment_def)
next
  case (6 l)
  show ?case
    using avail_getline_le [of "input l"] avail_getline_less [of "input l"]
    by (auto simp: handler_measure_def NextLine_def ReadLine_def split: prod.splits)
next
  case (7 l)
  show ?case
    using avail_CountSpaces_loop_le [of 0 "input l"]
      avail_CountSpaces_less [of "input l" "tl (buf (input l))"]
    by (cases "buf (input l)")
       (auto simp: handler_measure_def skip_spaces_def CountSpaces_def split: prod.splits)
qed

declare ReadNextToken.simps [simp del] ParseComment.simps [simp del]
  ParseLineEnd.simps [simp del] ParseSpaces.simps [simp del]

subsection \<open>The public interface\<close>

text \<open>
  The constructor: the members' default initialisers (the default \<^verbatim>\<open>Token\<close> is the first
  alternative of the variant, value-initialised), then the body, which calls
  \<^verbatim>\<open>ReadNextToken\<close>.
\<close>

definition default_token :: token where
  "default_token = Number 0"

definition initial :: "istream \<Rightarrow> lexer" where
  "initial s = \<lparr>input = s, start_of_line = True, current_indent = 0, line_indent = 0,
               current_token = default_token\<rparr>"

definition Lexer :: "istream \<Rightarrow> error + lexer" where
  "Lexer s = ReadNextToken (initial s)"

definition CurrentToken :: "lexer \<Rightarrow> token" where
  "CurrentToken l = current_token l"

definition NextToken :: "lexer \<Rightarrow> error + (token \<times> lexer)" where
  "NextToken l =
     (case ReadNextToken l of Inl e \<Rightarrow> Inl e | Inr l1 \<Rightarrow> Inr (current_token l1, l1))"

text \<open>
  A caller of the interface: \<open>NextTokens n l\<close> calls \<^verbatim>\<open>NextToken\<close> \<open>n\<close> times, or until one
  call throws, and gives the tokens returned, with the lexer as the last call left it or
  the exception that ended the calls. \<open>Scan n str\<close> constructs a lexer on a string stream
  over \<open>str\<close>, reads \<^verbatim>\<open>CurrentToken\<close> and then calls \<^verbatim>\<open>NextToken\<close> \<open>n\<close> times; it gives the
  tokens seen and the exception, if one was thrown.
\<close>

fun NextTokens :: "nat \<Rightarrow> lexer \<Rightarrow> token list \<times> (error + lexer)" where
  "NextTokens 0 l = ([], Inr l)"
| "NextTokens (Suc n) l =
     (case NextToken l of
        Inl e \<Rightarrow> ([], Inl e)
      | Inr (t, l1) \<Rightarrow> (case NextTokens n l1 of (ts, r) \<Rightarrow> (t # ts, r)))"

definition thrown :: "error + lexer \<Rightarrow> error option" where
  "thrown r = (case r of Inl e \<Rightarrow> Some e | Inr l \<Rightarrow> None)"

definition Scan :: "nat \<Rightarrow> string \<Rightarrow> token list \<times> error option" where
  "Scan n str =
     (case Lexer (istringstream str) of
        Inl e \<Rightarrow> ([], Some e)
      | Inr l \<Rightarrow> (case NextTokens n l of (ts, r) \<Rightarrow> (CurrentToken l # ts, thrown r)))"

section \<open>Notions used in the properties\<close>

text \<open>
  Predicates and abbreviations of the proofs; none of them is part of the program. Those
  with a quantifier (\<open>stays\<close>, \<open>throws\<close>, \<open>leaves\<close>, \<open>reaches_eof\<close>) occur in lemmas only.
\<close>

text \<open>The test that sends \<^verbatim>\<open>ReadNextToken\<close> to \<^verbatim>\<open>ParseEOF\<close>.\<close>

definition at_eof :: "istream \<Rightarrow> bool" where
  "at_eof s = is_eof (to_char (fst (peek s)))"

text \<open>
  What one call of \<^verbatim>\<open>ReadNextToken\<close> does to \<^verbatim>\<open>current_indent_\<close>, by the token it stores.
\<close>

definition indent_step :: "lexer \<Rightarrow> lexer \<Rightarrow> bool" where
  "indent_step l l1 =
     (if current_token l1 = Indent then unat (current_indent l1) = Suc (unat (current_indent l))
      else if current_token l1 = Dedent then Suc (unat (current_indent l1)) = unat (current_indent l)
      else current_indent l1 = current_indent l)"

text \<open>Where a call that stores \<^verbatim>\<open>Eof\<close> leaves the lexer.\<close>

definition eof_state :: "lexer \<Rightarrow> bool" where
  "eof_state l = (at_eof (input l) \<and> start_of_line l \<and> current_indent l = 0)"

text \<open>A stream after an extraction has failed at the end of the input.\<close>

definition exhausted :: "istream \<Rightarrow> istream" where
  "exhausted s = s\<lparr>buf := [], eofbit := True, failbit := True\<rparr>"

text \<open>
  The inputs of C9, in the claim's words: every line of the input holds only spaces, or
  spaces and then a comment. \<open>split_lines\<close> cuts a text at its line feeds.
\<close>

fun split_lines :: "string \<Rightarrow> string list" where
  "split_lines [] = [[]]"
| "split_lines (c # cs) =
     (if c = LF then [] # split_lines cs
      else (case split_lines cs of [] \<Rightarrow> [[c]] | ln # lns \<Rightarrow> (c # ln) # lns))"

definition blank_line :: "string \<Rightarrow> bool" where
  "blank_line ln =
     (case dropWhile (\<lambda>c. c = CHR '' '') ln of [] \<Rightarrow> True | c # cs \<Rightarrow> c = CHR ''#'')"

definition blank_input :: "string \<Rightarrow> bool" where
  "blank_input str = list_all blank_line (split_lines str)"

text \<open>A good stream after a loop has extracted the longest run of characters with \<open>P\<close>.\<close>

definition after_run :: "(char \<Rightarrow> bool) \<Rightarrow> istream \<Rightarrow> istream" where
  "after_run P s =
     (if dropWhile P (buf s) = [] then exhausted s else s\<lparr>buf := dropWhile P (buf s)\<rparr>)"

text \<open>
  \<open>alone s xs\<close>: the stream \<open>s\<close> of a lexer that scans a text on its own, when \<open>xs\<close> of the
  text is left (at the end of the text the stream may be in any state).
\<close>

definition alone :: "istream \<Rightarrow> string \<Rightarrow> bool" where
  "alone s xs = (s = istringstream xs \<or> xs = [])"

text \<open>
  \<open>stays f l xs\<close>: \<open>f\<close> (a call of the lexer) on the text \<open>xs\<close> alone returns, and on \<open>xs\<close>
  followed by a line feed and any text \<open>w\<close> it returns the same lexer, with the line feed
  and \<open>w\<close> still to read. \<open>leaves l xs\<close>: on \<open>xs\<close> followed by a line feed and \<open>w\<close>,
  \<^verbatim>\<open>ReadNextToken\<close> reads past that line feed, and either returns there, at the start of
  \<open>w\<close>, or goes on as \<^verbatim>\<open>ReadNextToken\<close> at the start of \<open>w\<close> does.
\<close>

definition stays :: "(lexer \<Rightarrow> error + lexer) \<Rightarrow> lexer \<Rightarrow> string \<Rightarrow> bool" where
  "stays f l xs =
     (\<exists>l1 s1 xs1. alone s1 xs1 \<and>
        f (l\<lparr>input := istringstream xs\<rparr>) = Inr (l1\<lparr>input := s1\<rparr>) \<and>
        (\<forall>w. f (l\<lparr>input := istringstream (xs @ LF # w)\<rparr>) =
              Inr (l1\<lparr>input := istringstream (xs1 @ LF # w)\<rparr>)))"

text \<open>\<open>throws f l xs\<close>: \<open>f\<close> on the text \<open>xs\<close> alone throws.\<close>

definition throws :: "(lexer \<Rightarrow> error + lexer) \<Rightarrow> lexer \<Rightarrow> string \<Rightarrow> bool" where
  "throws f l xs = (\<exists>e. f (l\<lparr>input := istringstream xs\<rparr>) = Inl e)"

definition leaves :: "lexer \<Rightarrow> string \<Rightarrow> bool" where
  "leaves l xs =
     (\<exists>l1. start_of_line l1 \<and> line_indent l1 = 0 \<and>
        ((\<forall>w. ReadNextToken (l\<lparr>input := istringstream (xs @ LF # w)\<rparr>) =
               Inr (l1\<lparr>input := istringstream w\<rparr>)) \<or>
         (\<forall>w. ReadNextToken (l\<lparr>input := istringstream (xs @ LF # w)\<rparr>) =
               ReadNextToken (l1\<lparr>input := istringstream w\<rparr>))))"

text \<open>The three ways a call of \<^verbatim>\<open>ReadNextToken\<close> before the end of a line can go.\<close>

definition outcome :: "lexer \<Rightarrow> string \<Rightarrow> bool" where
  "outcome l xs = (throws ReadNextToken l xs \<or> stays ReadNextToken l xs \<or> leaves l xs)"

text \<open>The token \<^verbatim>\<open>ParseName\<close> stores for a name.\<close>

definition name_token :: "string \<Rightarrow> token" where
  "name_token name = (case KeyWords name of Some t \<Rightarrow> t | None \<Rightarrow> Id_tok name)"

text \<open>What a caller sees of \<open>NextTokens\<close>: the tokens and the exception, if any.\<close>

definition seen :: "token list \<times> (error + lexer) \<Rightarrow> token list \<times> error option" where
  "seen x = (fst x, thrown (snd x))"

text \<open>\<open>reaches_eof l\<close>: from \<open>l\<close> on, calls of \<^verbatim>\<open>NextToken\<close> produce \<^verbatim>\<open>Eof\<close> before any throws.\<close>

definition reaches_eof :: "lexer \<Rightarrow> bool" where
  "reaches_eof l = (\<exists>k ts r. NextTokens (Suc k) l = (ts @ [Eof], r))"

section \<open>Lemmas\<close>

subsection \<open>How \<^verbatim>\<open>ReadNextToken\<close> dispatches\<close>

lemma peek_good_Cons: "good s \<Longrightarrow> buf s = c # cs \<Longrightarrow> peek s = (Some c, s)"
  by (simp add: peek_def)

lemma get_good_Cons: "good s \<Longrightarrow> buf s = c # cs \<Longrightarrow> get s = (Some c, s\<lparr>buf := cs\<rparr>)"
  by (simp add: get_def)

text \<open>
  Induction along the calls \<^verbatim>\<open>ReadNextToken\<close> makes to itself through its handlers: after
  a blank line, after a comment and after a run of spaces.
\<close>

lemma ReadNextToken_induct [case_names step]:
  assumes step: "\<And>l.
     (\<And>cs. good (input l) \<Longrightarrow> buf (input l) = LF # cs \<Longrightarrow> start_of_line l \<Longrightarrow> P (NextLine l)) \<Longrightarrow>
     (\<And>cs. good (input l) \<Longrightarrow> buf (input l) = CHR ''#'' # cs \<Longrightarrow> P (skip_comment l)) \<Longrightarrow>
     (\<And>cs. good (input l) \<Longrightarrow> buf (input l) = CHR '' '' # cs \<Longrightarrow> P (skip_spaces l)) \<Longrightarrow> P l"
  shows "P l"
proof (induction "avail (input l)" arbitrary: l rule: less_induct)
  case less
  show ?case
  proof (rule step)
    fix cs
    assume "good (input l)" and "buf (input l) = LF # cs"
    then have "avail (input (NextLine l)) < avail (input l)"
      using avail_getline_less [of "input l"]
      by (simp add: NextLine_def ReadLine_def case_prod_beta avail_def)
    then show "P (NextLine l)" by (rule less)
  next
    fix cs
    assume "good (input l)" and "buf (input l) = CHR ''#'' # cs"
    then have "avail (input (skip_comment l)) < avail (input l)"
      using avail_ParseComment_loop_less [of "input l" "CHR ''#''" cs]
      by (simp add: skip_comment_def)
    then show "P (skip_comment l)" by (rule less)
  next
    fix cs
    assume "good (input l)" and "buf (input l) = CHR '' '' # cs"
    then have "avail (input (skip_spaces l)) < avail (input l)"
      using avail_CountSpaces_less [of "input l" cs]
      by (simp add: skip_spaces_def case_prod_beta)
    then show "P (skip_spaces l)" by (rule less)
  qed
qed

lemma ReadNextToken_eof:
  "at_eof (input l) \<Longrightarrow> ReadNextToken l = Inr (ParseEOF (l\<lparr>input := snd (peek (input l))\<rparr>))"
  by (simp add: at_eof_def ReadNextToken.simps [of l] case_prod_beta Let_def)

lemma ReadNextToken_LF:
  "good (input l) \<Longrightarrow> buf (input l) = LF # cs \<Longrightarrow>
   ReadNextToken l =
     (if start_of_line l then ReadNextToken (NextLine l)
      else Inr ((NextLine l)\<lparr>current_token := Newline\<rparr>))"
  by (simp add: ReadNextToken.simps [of l] peek_good_Cons to_char_def is_eof_def ParseLineEnd.simps)

lemma ReadNextToken_hash:
  "good (input l) \<Longrightarrow> buf (input l) = CHR ''#'' # cs \<Longrightarrow>
   ReadNextToken l = ReadNextToken (skip_comment l)"
  by (simp add: ReadNextToken.simps [of l] peek_good_Cons to_char_def is_eof_def ParseComment.simps)

lemma ReadNextToken_space:
  "good (input l) \<Longrightarrow> buf (input l) = CHR '' '' # cs \<Longrightarrow>
   ReadNextToken l = ReadNextToken (skip_spaces l)"
  by (simp add: ReadNextToken.simps [of l] peek_good_Cons to_char_def is_eof_def ParseSpaces.simps)

lemma ReadNextToken_token:
  "good (input l) \<Longrightarrow> buf (input l) = c # cs \<Longrightarrow> c \<noteq> EOF_CHAR \<Longrightarrow> c \<noteq> LF \<Longrightarrow>
   c \<noteq> CHR ''#'' \<Longrightarrow> c \<noteq> CHR '' '' \<Longrightarrow>
   ReadNextToken l =
     (if start_of_line l \<and> current_indent l \<noteq> line_indent l then Inr (ParseIndent l)
      else (case ParseToken l of Inl e \<Rightarrow> Inl e | Inr l2 \<Rightarrow> Inr (l2\<lparr>start_of_line := False\<rparr>)))"
  by (simp add: ReadNextToken.simps [of l] peek_good_Cons to_char_def is_eof_def)

lemma lexer_cases [case_names eof lf hash space tok]:
  obtains "at_eof (input l)"
  | cs where "good (input l)" and "buf (input l) = LF # cs"
  | cs where "good (input l)" and "buf (input l) = CHR ''#'' # cs"
  | cs where "good (input l)" and "buf (input l) = CHR '' '' # cs"
  | c cs where "good (input l)" and "buf (input l) = c # cs" and "c \<noteq> EOF_CHAR" and "c \<noteq> LF"
      and "c \<noteq> CHR ''#''" and "c \<noteq> CHR '' ''"
  by (cases "good (input l)"; cases "buf (input l)")
     (auto simp: at_eof_def peek_def to_char_def is_eof_def)

subsection \<open>What the handlers leave alone\<close>

lemma NextLine_fields [simp]:
  "start_of_line (NextLine l) = True" "line_indent (NextLine l) = 0"
  "current_indent (NextLine l) = current_indent l" "current_token (NextLine l) = current_token l"
  by (simp_all add: NextLine_def case_prod_beta)

lemma skip_comment_fields [simp]:
  "start_of_line (skip_comment l) = start_of_line l"
  "line_indent (skip_comment l) = line_indent l"
  "current_indent (skip_comment l) = current_indent l"
  "current_token (skip_comment l) = current_token l"
  by (simp_all add: skip_comment_def)

lemma skip_spaces_fields [simp]:
  "start_of_line (skip_spaces l) = start_of_line l"
  "current_indent (skip_spaces l) = current_indent l"
  "current_token (skip_spaces l) = current_token l"
  by (simp_all add: skip_spaces_def case_prod_beta)

lemma KeyWords_not_structural:
  "KeyWords name = Some t \<Longrightarrow> t \<noteq> Indent \<and> t \<noteq> Dedent \<and> t \<noteq> Eof \<and> t \<noteq> Newline"
  by (auto simp: KeyWords_def split: if_splits)

lemma DualSymbols_not_structural:
  "DualSymbols p = Some t \<Longrightarrow> t \<noteq> Indent \<and> t \<noteq> Dedent \<and> t \<noteq> Eof \<and> t \<noteq> Newline"
  by (auto simp: DualSymbols_def split: if_splits)

lemma ParseName_fields:
  "start_of_line (ParseName l) = start_of_line l \<and> line_indent (ParseName l) = line_indent l \<and>
   current_indent (ParseName l) = current_indent l \<and>
   current_token (ParseName l) \<notin> {Indent, Dedent, Eof, Newline}"
  by (auto simp: ParseName_def case_prod_beta split: option.splits dest: KeyWords_not_structural)

lemma ParseChar_fields:
  "start_of_line (ParseChar l) = start_of_line l \<and> line_indent (ParseChar l) = line_indent l \<and>
   current_indent (ParseChar l) = current_indent l \<and>
   current_token (ParseChar l) \<notin> {Indent, Dedent, Eof, Newline}"
  by (auto simp: ParseChar_def case_prod_beta Let_def split: option.splits
           dest: DualSymbols_not_structural)

lemma ParseToken_fields:
  assumes "ParseToken l = Inr l1"
  shows "start_of_line l1 = start_of_line l \<and> line_indent l1 = line_indent l \<and>
         current_indent l1 = current_indent l \<and>
         current_token l1 \<notin> {Indent, Dedent, Eof, Newline}"
  using assms ParseName_fields [of "l\<lparr>input := snd (peek (input l))\<rparr>"]
    ParseChar_fields [of "l\<lparr>input := snd (peek (input l))\<rparr>"]
  by (auto simp: ParseToken_def case_prod_beta Let_def split: if_splits sum.splits)

subsection \<open>Indentation bookkeeping\<close>

lemma word_not_pos: "\<not> (0::32 word) < w \<Longrightarrow> w = 0"
  using word_neq_0_conv [of w] by blast

lemma unat_succ_below: "(a::32 word) < b \<Longrightarrow> unat (a + 1) = Suc (unat a)"
proof -
  assume "a < b"
  then have "unat a < unat b" by (simp add: word_less_nat_alt)
  moreover have "unat b < 2 ^ 32" using unsigned_less [of b] by simp
  ultimately have "unat a + unat (1::32 word) < 2 ^ LENGTH(32)" by simp
  then have "unat (a + 1) = unat a + unat (1::32 word)"
    by (simp only: unat_add_lem)
  then show ?thesis by simp
qed

lemma unat_pred_above: "(b::32 word) < a \<Longrightarrow> Suc (unat (a - 1)) = unat a"
  by (metis add.commute diff_add_cancel unatSuc word_not_simps(1))

lemma indent_step_same:
  "current_indent l = current_indent l0 \<Longrightarrow> indent_step l l1 \<Longrightarrow> indent_step l0 l1"
  by (simp add: indent_step_def)

lemma ParseEOF_indent_step: "indent_step l (ParseEOF (l\<lparr>input := s\<rparr>))"
  by (auto simp: indent_step_def ParseEOF_def unat_pred_above)

lemma ParseIndent_indent_step:
  "current_indent l \<noteq> line_indent l \<Longrightarrow> indent_step l (ParseIndent l)"
  by (auto simp: indent_step_def ParseIndent_def unat_pred_above unat_succ_below)

lemma ParseToken_indent_step:
  "ParseToken l = Inr l2 \<Longrightarrow> indent_step l (l2\<lparr>start_of_line := False\<rparr>)"
  using ParseToken_fields [of l l2] by (auto simp: indent_step_def)

lemma ReadNextToken_indent_step: "ReadNextToken l = Inr l1 \<Longrightarrow> indent_step l l1"
proof (induction l rule: ReadNextToken_induct)
  case (step l)
  show ?case
  proof (cases l rule: lexer_cases)
    case eof
    with step.prems show ?thesis
      by (auto simp: ReadNextToken_eof ParseEOF_indent_step)
  next
    case (lf cs)
    show ?thesis
    proof (cases "start_of_line l")
      case True
      with lf step.prems have "ReadNextToken (NextLine l) = Inr l1"
        by (simp add: ReadNextToken_LF)
      with step.IH(1) lf True have "indent_step (NextLine l) l1" by blast
      then show ?thesis by (rule indent_step_same [rotated]) simp
    next
      case False
      with lf step.prems show ?thesis
        by (auto simp: ReadNextToken_LF indent_step_def)
    qed
  next
    case (hash cs)
    with step.prems have "ReadNextToken (skip_comment l) = Inr l1"
      by (simp add: ReadNextToken_hash)
    with step.IH(2) hash have "indent_step (skip_comment l) l1" by blast
    then show ?thesis by (rule indent_step_same [rotated]) simp
  next
    case (space cs)
    with step.prems have "ReadNextToken (skip_spaces l) = Inr l1"
      by (simp add: ReadNextToken_space)
    with step.IH(3) space have "indent_step (skip_spaces l) l1" by blast
    then show ?thesis by (rule indent_step_same [rotated]) simp
  next
    case (tok c cs)
    with step.prems show ?thesis
      by (auto simp: ReadNextToken_token ParseIndent_indent_step ParseToken_indent_step
               split: if_splits sum.splits)
  qed
qed

lemma at_eof_peek: "at_eof s \<Longrightarrow> at_eof (snd (peek s))"
  by (auto simp: at_eof_def peek_def good_def to_char_def is_eof_def split: if_splits list.splits)

lemma ReadNextToken_Eof_state:
  "ReadNextToken l = Inr l1 \<Longrightarrow> current_token l1 = Eof \<Longrightarrow> eof_state l1"
proof (induction l rule: ReadNextToken_induct)
  case (step l)
  show ?case
  proof (cases l rule: lexer_cases)
    case eof
    with step.prems show ?thesis
      by (auto simp: ReadNextToken_eof ParseEOF_def eof_state_def at_eof_peek word_not_pos
               split: if_splits)
  next
    case (lf cs)
    with step show ?thesis
      by (auto simp: ReadNextToken_LF split: if_splits)
  next
    case (hash cs)
    with step show ?thesis
      by (auto simp: ReadNextToken_hash)
  next
    case (space cs)
    with step show ?thesis
      by (auto simp: ReadNextToken_space)
  next
    case (tok c cs)
    with step.prems show ?thesis
      using ParseToken_fields [of l]
      by (auto simp: ReadNextToken_token ParseIndent_def split: if_splits sum.splits)
  qed
qed

lemma eof_state_ReadNextToken:
  assumes "eof_state l"
  shows "\<exists>l1. ReadNextToken l = Inr l1 \<and> current_token l1 = Eof \<and> eof_state l1"
  using assms
  by (auto simp: eof_state_def ReadNextToken_eof ParseEOF_def at_eof_peek)

lemma eof_state_NextTokens:
  "eof_state l \<Longrightarrow>
   \<exists>l1. NextTokens n l = (replicate n Eof, Inr l1) \<and> eof_state l1 \<and>
        (0 < n \<longrightarrow> current_token l1 = Eof)"
proof (induction n arbitrary: l)
  case 0
  then show ?case by simp
next
  case (Suc n)
  from eof_state_ReadNextToken [OF Suc.prems] obtain l1
    where l1: "ReadNextToken l = Inr l1" "current_token l1 = Eof" "eof_state l1" by blast
  from Suc.IH [OF l1(3)] obtain l2
    where l2: "NextTokens n l1 = (replicate n Eof, Inr l2)" "eof_state l2"
      "0 < n \<longrightarrow> current_token l2 = Eof" by blast
  show ?case
    using l1 l2 by (cases n) (auto simp: NextToken_def)
qed

subsection \<open>Runs of \<^verbatim>\<open>NextToken\<close>\<close>

lemma Scan_NextTokens:
  "Scan n str =
     (case NextTokens (Suc n) (initial (istringstream str)) of (ts, r) \<Rightarrow> (ts, thrown r))"
  by (simp add: Scan_def Lexer_def NextToken_def CurrentToken_def thrown_def
           split: sum.splits prod.splits)

lemma NextTokens_balance:
  "NextTokens n l = (ts @ Eof # rest, r) \<Longrightarrow>
   unat (current_indent l) + count_list ts Indent = count_list ts Dedent"
proof (induction n arbitrary: l ts)
  case 0
  then show ?case by simp
next
  case (Suc n)
  from Suc.prems obtain t l1 ts1
    where nt: "NextToken l = Inr (t, l1)" and run: "NextTokens n l1 = (ts1, r)"
      and toks: "t # ts1 = ts @ Eof # rest"
    by (auto split: sum.splits prod.splits)
  from nt have rnt: "ReadNextToken l = Inr l1" and t: "t = current_token l1"
    by (auto simp: NextToken_def split: sum.splits)
  have step: "indent_step l l1"
    using rnt by (rule ReadNextToken_indent_step)
  show ?case
  proof (cases ts)
    case Nil
    with toks t have "current_token l1 = Eof" by simp
    with rnt have "eof_state l1" by (rule ReadNextToken_Eof_state)
    with step \<open>current_token l1 = Eof\<close> Nil show ?thesis
      by (simp add: indent_step_def eof_state_def)
  next
    case (Cons t0 ts2)
    with toks have t0: "t0 = t" and ts1: "ts1 = ts2 @ Eof # rest" by simp_all
    from Suc.IH [of l1 ts2] run ts1
    have "unat (current_indent l1) + count_list ts2 Indent = count_list ts2 Dedent"
      by simp
    with step t t0 Cons show ?thesis
      by (auto simp: indent_step_def split: if_splits)
  qed
qed

subsection \<open>Operators and punctuation\<close>

lemma DualSymbols_Some:
  "DualSymbols p = Some t \<longleftrightarrow>
     (p = ''=='' \<and> t = Eq) \<or> (p = ''!='' \<and> t = NotEq) \<or> (p = ''>='' \<and> t = GreaterOrEq) \<or>
     (p = ''<='' \<and> t = LessOrEq)"
  by (auto simp: DualSymbols_def split: if_splits)

lemma DualSymbols_None:
  "DualSymbols p = None \<longleftrightarrow> p \<noteq> ''=='' \<and> p \<noteq> ''!='' \<and> p \<noteq> ''>='' \<and> p \<noteq> ''<=''"
  by (auto simp: DualSymbols_def split: if_splits)

lemma ParseChar_pair:
  assumes "good (input l)" and "buf (input l) = c # d # rest" and "DualSymbols [c, d] = Some t"
  shows "ParseChar l = l\<lparr>input := (input l)\<lparr>buf := rest\<rparr>, current_token := t\<rparr>"
  using assms by (simp add: ParseChar_def get_def peek_def good_def to_char_def)

lemma ParseChar_single:
  assumes "good (input l)" and "buf (input l) = c # d # rest" and "DualSymbols [c, d] = None"
  shows "ParseChar l = l\<lparr>input := (input l)\<lparr>buf := d # rest\<rparr>, current_token := Char_tok c\<rparr>"
  using assms by (simp add: ParseChar_def get_def peek_def good_def to_char_def)

lemma ParseChar_last:
  assumes "good (input l)" and "buf (input l) = [c]"
  shows "ParseChar l = l\<lparr>input := (input l)\<lparr>buf := [], eofbit := True\<rparr>, current_token := Char_tok c\<rparr>"
  using assms by (simp add: ParseChar_def get_def peek_def good_def to_char_def DualSymbols_def)

lemma ParseToken_ParseChar:
  assumes "good (input l)" and "buf (input l) = c # rest" and "\<not> IsNum c" and "\<not> IsAlNumLL c"
    and "c \<noteq> DQUOTE" and "c \<noteq> SQUOTE"
  shows "ParseToken l = Inr (ParseChar l)"
  using assms by (simp add: ParseToken_def peek_good_Cons to_char_def)

subsection \<open>String literals\<close>

lemma ReadString_loop_backslash:
  assumes "good s" and "buf s = BACKSLASH # x # rest"
  shows "ReadString_loop first c line s =
     ReadString_loop first (Some BACKSLASH) (line @ escape (Some x)) (s\<lparr>buf := rest\<rparr>)"
  using assms by (simp add: ReadString_loop.simps [of first c line s] get_def good_def)

subsection \<open>The current token\<close>

lemma NextLine_current_token:
  "NextLine (l\<lparr>current_token := t\<rparr>) = (NextLine l)\<lparr>current_token := t\<rparr>"
  by (simp add: NextLine_def case_prod_beta)

lemma skip_comment_current_token:
  "skip_comment (l\<lparr>current_token := t\<rparr>) = (skip_comment l)\<lparr>current_token := t\<rparr>"
  by (simp add: skip_comment_def)

lemma skip_spaces_current_token:
  "skip_spaces (l\<lparr>current_token := t\<rparr>) = (skip_spaces l)\<lparr>current_token := t\<rparr>"
  by (simp add: skip_spaces_def case_prod_beta)

lemma ParseToken_current_token: "ParseToken (l\<lparr>current_token := t\<rparr>) = ParseToken l"
  by (simp add: ParseToken_def ParseName_def ParseChar_def case_prod_beta Let_def
           split: sum.splits option.splits)

lemma ParseEOF_current_token:
  "ParseEOF (l\<lparr>current_token := t, input := s\<rparr>) = ParseEOF (l\<lparr>input := s\<rparr>)"
  by (simp add: ParseEOF_def NextLine_def case_prod_beta)

lemma ParseIndent_current_token:
  "current_indent l \<noteq> line_indent l \<Longrightarrow> ParseIndent (l\<lparr>current_token := t\<rparr>) = ParseIndent l"
  by (auto simp: ParseIndent_def)

text \<open>What \<^verbatim>\<open>ReadNextToken\<close> stores does not depend on the token stored before.\<close>

lemma ReadNextToken_current_token:
  "ReadNextToken (l\<lparr>current_token := t\<rparr>) = ReadNextToken l"
proof (induction l rule: ReadNextToken_induct)
  case (step l)
  show ?case
  proof (cases l rule: lexer_cases)
    case eof
    then show ?thesis
      by (simp add: ReadNextToken_eof ParseEOF_current_token)
  next
    case (lf cs)
    with step.IH(1) show ?thesis
      by (simp add: ReadNextToken_LF [of _ cs] NextLine_current_token)
  next
    case (hash cs)
    with step.IH(2) show ?thesis
      by (simp add: ReadNextToken_hash [of _ cs] skip_comment_current_token)
  next
    case (space cs)
    with step.IH(3) show ?thesis
      by (simp add: ReadNextToken_space [of _ cs] skip_spaces_current_token)
  next
    case (tok c cs)
    then show ?thesis
      by (simp add: ReadNextToken_token [of _ c cs] ParseToken_current_token
            ParseIndent_current_token)
  qed
qed

subsection \<open>An operator as the last character\<close>

lemma not_good_at_eof: "\<not> good s \<Longrightarrow> at_eof s"
  by (simp add: at_eof_def peek_def to_char_def is_eof_def)

lemma not_good_peek: "\<not> good s \<Longrightarrow> \<not> good (snd (peek s))"
  by (simp add: peek_def good_def)

lemma not_good_getline: "\<not> good s \<Longrightarrow> \<not> good (snd (getline s))"
  by (simp add: getline_def good_def)

lemma NextTokens_Suc:
  "ReadNextToken l = Inr l1 \<Longrightarrow> NextTokens n l1 = (ts, r) \<Longrightarrow>
   NextTokens (Suc n) l = (current_token l1 # ts, r)"
  by (simp add: NextToken_def)

lemma dedents_then_eof:
  "at_eof (input l) \<Longrightarrow> start_of_line l \<Longrightarrow>
   \<exists>l2. NextTokens (unat (current_indent l) + k) l =
          (replicate (unat (current_indent l)) Dedent @ replicate k Eof, Inr l2)"
proof (induction "unat (current_indent l)" arbitrary: l)
  case 0
  then have "eof_state l"
    by (simp add: eof_state_def unat_eq_0)
  from eof_state_NextTokens [OF this, of k] 0 show ?case
    by auto
next
  case (Suc m)
  define l1 where "l1 = l\<lparr>input := snd (peek (input l)),
      current_indent := current_indent l - 1, current_token := Dedent\<rparr>"
  from Suc.hyps(2) have pos: "0 < current_indent l"
    by (metis unat_gt_0 zero_less_Suc unat_eq_0 word_neq_0_conv)
  then have un: "unat (current_indent l - 1) = m"
    using unat_pred_above [of 0 "current_indent l"] Suc.hyps(2) by simp
  have step: "ReadNextToken l = Inr l1"
    using Suc.prems pos by (simp add: ReadNextToken_eof ParseEOF_def l1_def)
  have "m = unat (current_indent l1)" "at_eof (input l1)" "start_of_line l1"
    using un Suc.prems by (simp_all add: l1_def at_eof_peek)
  from Suc.hyps(1) [OF this] obtain l2
    where run: "NextTokens (m + k) l1 = (replicate m Dedent @ replicate k Eof, Inr l2)"
    using un by (auto simp: l1_def)
  have "NextTokens (Suc (m + k)) l = (current_token l1 # replicate m Dedent @ replicate k Eof, Inr l2)"
    using step run by (rule NextTokens_Suc)
  then have "NextTokens (Suc m + k) l = (replicate (Suc m) Dedent @ replicate k Eof, Inr l2)"
    by (simp add: l1_def)
  then show ?case
    using Suc.hyps(2) by metis
qed

subsection \<open>What the skipping loops leave in the stream\<close>

lemma not_good_exhausted [simp]: "\<not> good (exhausted s)"
  by (simp add: exhausted_def good_def)

lemma getline_good_LF: "good s \<Longrightarrow> buf s = LF # cs \<Longrightarrow> snd (getline s) = s\<lparr>buf := cs\<rparr>"
  by (simp add: getline_def)

lemma getline_good:
  assumes "good s"
  shows "snd (getline s) =
     (if LF \<in> set (buf s) then s\<lparr>buf := tl (dropWhile (\<lambda>c. c \<noteq> LF) (buf s))\<rparr>
      else s\<lparr>buf := [], eofbit := True, failbit := (buf s = [])\<rparr>)"
proof (cases "dropWhile (\<lambda>c. c \<noteq> LF) (buf s)")
  case Nil
  then have nin: "LF \<notin> set (buf s)"
    by auto
  then have tw: "takeWhile (\<lambda>c. c \<noteq> LF) (buf s) = buf s"
    by (auto simp: takeWhile_eq_all_conv)
  show ?thesis
    using assms by (simp add: getline_def Let_def Nil tw nin del: dropWhile_eq_Nil_conv)
next
  case (Cons c cs)
  have "dropWhile (\<lambda>c. c \<noteq> LF) (buf s) \<noteq> []"
    using Cons by simp
  then have "LF \<in> set (buf s)"
    by auto
  with Cons assms show ?thesis
    by (simp add: getline_def Let_def)
qed

lemma CountSpaces_loop_good:
  "good s \<Longrightarrow>
   CountSpaces_loop n s =
     (n + of_nat (length (takeWhile (\<lambda>c. c = CHR '' '') (buf s))),
      if dropWhile (\<lambda>c. c = CHR '' '') (buf s) = [] then exhausted s
      else s\<lparr>buf := dropWhile (\<lambda>c. c = CHR '' '') (buf s)\<rparr>)"
proof (induction "buf s" arbitrary: n s)
  case Nil
  then show ?case
    by (simp add: CountSpaces_loop.simps [of n s] get_def exhausted_def)
next
  case (Cons c cs)
  from Cons.hyps(2) [symmetric] Cons.prems
  have g: "get s = (Some c, s\<lparr>buf := cs\<rparr>)"
    by (simp add: get_def)
  have b: "buf s = c # cs"
    using Cons.hyps(2) by simp
  show ?case
  proof (cases "c = CHR '' ''")
    case True
    have "CountSpaces_loop (n + 1) (s\<lparr>buf := cs\<rparr>) =
        (n + 1 + of_nat (length (takeWhile (\<lambda>c. c = CHR '' '') cs)),
         if dropWhile (\<lambda>c. c = CHR '' '') cs = [] then exhausted (s\<lparr>buf := cs\<rparr>)
         else s\<lparr>buf := cs, buf := dropWhile (\<lambda>c. c = CHR '' '') cs\<rparr>)"
      using Cons.hyps(1) [of "s\<lparr>buf := cs\<rparr>" "n + 1"] Cons.prems
      by (simp add: good_def)
    with g True b show ?thesis
      by (simp add: CountSpaces_loop.simps [of n s] exhausted_def add.assoc)
  next
    case False
    with g b show ?thesis
      by (simp add: CountSpaces_loop.simps [of n s] putback_after_get)
  qed
qed

lemma ParseComment_loop_good:
  "good s \<Longrightarrow>
   ParseComment_loop s =
     (if LF \<in> set (buf s) then s\<lparr>buf := dropWhile (\<lambda>c. c \<noteq> LF) (buf s)\<rparr>
      else exhausted s)"
proof (induction "buf s" arbitrary: s)
  case Nil
  then show ?case
    by (simp add: ParseComment_loop.simps [of s] get_def exhausted_def)
next
  case (Cons c cs)
  from Cons.hyps(2) [symmetric] Cons.prems
  have g: "get s = (Some c, s\<lparr>buf := cs\<rparr>)"
    by (simp add: get_def)
  have b: "buf s = c # cs"
    using Cons.hyps(2) by simp
  show ?case
  proof (cases "c = LF")
    case True
    with g b show ?thesis
      by (simp add: ParseComment_loop.simps [of s] putback_after_get)
  next
    case False
    have "ParseComment_loop (s\<lparr>buf := cs\<rparr>) =
        (if LF \<in> set cs then s\<lparr>buf := cs, buf := dropWhile (\<lambda>c. c \<noteq> LF) cs\<rparr>
         else exhausted (s\<lparr>buf := cs\<rparr>))"
      using Cons.hyps(1) [of "s\<lparr>buf := cs\<rparr>"] Cons.prems
      by (simp add: good_def)
    with g False b show ?thesis
      by (simp add: ParseComment_loop.simps [of s] exhausted_def)
  qed
qed

subsection \<open>Blank input\<close>

lemma blank_line_Nil [simp]: "blank_line []"
  by (simp add: blank_line_def)

lemma split_lines_not_Nil [simp]: "split_lines s \<noteq> []"
  by (induction s) (simp_all split: list.splits)

lemma blank_input_LF: "blank_input (LF # cs) \<Longrightarrow> blank_input cs"
  by (simp add: blank_input_def)

lemma blank_input_first:
  "blank_input (c # cs) \<Longrightarrow> c = LF \<or> c = CHR '' '' \<or> c = CHR ''#''"
  by (cases "split_lines cs") (simp_all add: blank_input_def blank_line_def split: if_splits)

lemma blank_input_space: "blank_input (CHR '' '' # cs) \<Longrightarrow> blank_input cs"
  by (cases "split_lines cs") (simp_all add: blank_input_def blank_line_def)

lemma blank_input_dropWhile_space:
  "blank_input s \<Longrightarrow> blank_input (dropWhile (\<lambda>c. c = CHR '' '') s)"
proof (induction s)
  case Nil
  then show ?case by simp
next
  case (Cons a s)
  show ?case
  proof (cases "a = CHR '' ''")
    case True
    with Cons.prems have "blank_input s"
      by (simp add: blank_input_space)
    with Cons.IH True show ?thesis by simp
  next
    case False
    with Cons.prems show ?thesis by simp
  qed
qed

lemma blank_input_after_comment:
  "list_all blank_line (tl (split_lines s)) \<Longrightarrow> blank_input (dropWhile (\<lambda>c. c \<noteq> LF) s)"
proof (induction s)
  case Nil
  then show ?case by (simp add: blank_input_def)
next
  case (Cons c cs)
  show ?case
  proof (cases "c = LF")
    case True
    with Cons.prems show ?thesis
      by (simp add: blank_input_def)
  next
    case False
    obtain ln lns where sp: "split_lines cs = ln # lns"
      by (cases "split_lines cs") simp_all
    with False Cons.prems have "list_all blank_line (tl (split_lines cs))"
      by simp
    with Cons.IH False show ?thesis by simp
  qed
qed

lemma blank_input_dropWhile_comment:
  "blank_input s \<Longrightarrow> blank_input (dropWhile (\<lambda>c. c \<noteq> LF) s)"
  by (rule blank_input_after_comment) (cases "split_lines s"; simp add: blank_input_def)

lemma blank_input_ReadNextToken:
  "start_of_line l \<Longrightarrow> current_indent l = 0 \<Longrightarrow>
   (good (input l) \<longrightarrow> blank_input (buf (input l))) \<Longrightarrow>
   \<exists>l1. ReadNextToken l = Inr l1 \<and> current_token l1 = Eof"
proof (induction l rule: ReadNextToken_induct)
  case (step l)
  show ?case
  proof (cases l rule: lexer_cases)
    case eof
    with step.prems show ?thesis
      by (simp add: ReadNextToken_eof ParseEOF_def)
  next
    case (lf cs)
    have "input (NextLine l) = (input l)\<lparr>buf := cs\<rparr>"
      using lf by (simp add: NextLine_def ReadLine_def case_prod_beta getline_good_LF)
    moreover have "blank_input cs"
      using lf step.prems(3) by (simp add: blank_input_LF)
    ultimately have "good (input (NextLine l)) \<longrightarrow> blank_input (buf (input (NextLine l)))"
      by simp
    with step.IH(1) [OF lf] step.prems
    have "\<exists>l1. ReadNextToken (NextLine l) = Inr l1 \<and> current_token l1 = Eof"
      by simp
    with step.prems(1) lf show ?thesis
      by (simp add: ReadNextToken_LF [of l cs])
  next
    case (hash cs)
    have "blank_input (dropWhile (\<lambda>c. c \<noteq> LF) (buf (input l)))"
      by (rule blank_input_dropWhile_comment) (use hash step.prems(3) in simp)
    with hash have "good (input (skip_comment l)) \<longrightarrow> blank_input (buf (input (skip_comment l)))"
      by (simp add: skip_comment_def ParseComment_loop_good)
    with step.IH(2) [OF hash] step.prems
    have "\<exists>l1. ReadNextToken (skip_comment l) = Inr l1 \<and> current_token l1 = Eof"
      by simp
    with hash show ?thesis
      by (simp add: ReadNextToken_hash [of l cs])
  next
    case (space cs)
    have "blank_input (dropWhile (\<lambda>c. c = CHR '' '') (buf (input l)))"
      by (rule blank_input_dropWhile_space) (use space step.prems(3) in simp)
    with space have "good (input (skip_spaces l)) \<longrightarrow> blank_input (buf (input (skip_spaces l)))"
      by (simp add: skip_spaces_def CountSpaces_def CountSpaces_loop_good)
    with step.IH(3) [OF space] step.prems
    have "\<exists>l1. ReadNextToken (skip_spaces l) = Inr l1 \<and> current_token l1 = Eof"
      by simp
    with space show ?thesis
      by (simp add: ReadNextToken_space [of l cs])
  next
    case (tok c cs)
    with step.prems(3) blank_input_first [of c cs] show ?thesis
      by simp
  qed
qed

subsection \<open>A blank line between two lines of text: what the readers leave in the stream\<close>

lemma ReadName_loop_good:
  "good s \<Longrightarrow>
   ReadName_loop line s = (line @ takeWhile IsAlNumLL (buf s), after_run IsAlNumLL s)"
proof (induction "buf s" arbitrary: line s)
  case Nil
  then show ?case
    by (simp add: ReadName_loop.simps [of line s] get_def exhausted_def after_run_def)
next
  case (Cons c cs)
  have b: "buf s = c # cs"
    using Cons.hyps(2) by simp
  with Cons.prems have g: "get s = (Some c, s\<lparr>buf := cs\<rparr>)"
    by (simp add: get_def)
  show ?case
  proof (cases "IsAlNumLL c")
    case True
    have "ReadName_loop (line @ [c]) (s\<lparr>buf := cs\<rparr>) =
        ((line @ [c]) @ takeWhile IsAlNumLL cs, after_run IsAlNumLL (s\<lparr>buf := cs\<rparr>))"
      using Cons.hyps(1) [of "s\<lparr>buf := cs\<rparr>" "line @ [c]"] Cons.prems
      by (simp add: good_def)
    with g True b show ?thesis
      by (simp add: ReadName_loop.simps [of line s] exhausted_def after_run_def)
  next
    case False
    with g b show ?thesis
      by (simp add: ReadName_loop.simps [of line s] putback_after_get after_run_def)
  qed
qed

lemma ReadNumber_loop_good:
  "good s \<Longrightarrow>
   ReadNumber_loop num s = (num @ takeWhile IsNum (buf s), after_run IsNum s)"
proof (induction "buf s" arbitrary: num s)
  case Nil
  then show ?case
    by (simp add: ReadNumber_loop.simps [of num s] get_def exhausted_def after_run_def)
next
  case (Cons c cs)
  have b: "buf s = c # cs"
    using Cons.hyps(2) by simp
  with Cons.prems have g: "get s = (Some c, s\<lparr>buf := cs\<rparr>)"
    by (simp add: get_def)
  show ?case
  proof (cases "IsNum c")
    case True
    have "ReadNumber_loop (num @ [c]) (s\<lparr>buf := cs\<rparr>) =
        ((num @ [c]) @ takeWhile IsNum cs, after_run IsNum (s\<lparr>buf := cs\<rparr>))"
      using Cons.hyps(1) [of "s\<lparr>buf := cs\<rparr>" "num @ [c]"] Cons.prems
      by (simp add: good_def)
    with g True b show ?thesis
      by (simp add: ReadNumber_loop.simps [of num s] exhausted_def after_run_def)
  next
    case False
    with g b show ?thesis
      by (simp add: ReadNumber_loop.simps [of num s] putback_after_get after_run_def)
  qed
qed

lemma CountSpaces_good:
  "good s \<Longrightarrow>
   CountSpaces s =
     (of_nat (length (takeWhile (\<lambda>c. c = CHR '' '') (buf s))),
      after_run (\<lambda>c. c = CHR '' '') s)"
  by (simp add: CountSpaces_def CountSpaces_loop_good after_run_def)

lemma ParseComment_loop_after_run:
  "good s \<Longrightarrow> ParseComment_loop s = after_run (\<lambda>c. c \<noteq> LF) s"
proof -
  assume g: "good s"
  show ?thesis
  proof (cases "LF \<in> set (buf s)")
    case True
    then have "dropWhile (\<lambda>c. c \<noteq> LF) (buf s) \<noteq> []"
      by auto
    with g True show ?thesis
      by (simp add: ParseComment_loop_good after_run_def del: dropWhile_eq_Nil_conv)
  next
    case False
    then have "dropWhile (\<lambda>c. c \<noteq> LF) (buf s) = []"
      by auto
    with g False show ?thesis
      by (simp add: ParseComment_loop_good after_run_def del: dropWhile_eq_Nil_conv)
  qed
qed

text \<open>A run that meets a character without \<open>P\<close> does not look behind it.\<close>

lemma takeWhile_stop: "\<not> P y \<Longrightarrow> takeWhile P (xs @ y # ys) = takeWhile P xs"
  by (induction xs) simp_all

lemma dropWhile_stop: "\<not> P y \<Longrightarrow> dropWhile P (xs @ y # ys) = dropWhile P xs @ y # ys"
  by (induction xs) simp_all

lemma after_run_stop:
  "\<not> P y \<Longrightarrow>
   after_run P (istringstream (xs @ y # ys)) = istringstream (dropWhile P xs @ y # ys)"
  by (simp add: after_run_def istringstream_def dropWhile_stop del: dropWhile_eq_Nil_conv)

lemma after_run_alone:
  "after_run P (istringstream xs) =
     (if dropWhile P xs = [] then exhausted (istringstream xs)
      else istringstream (dropWhile P xs))"
  by (simp add: after_run_def istringstream_def del: dropWhile_eq_Nil_conv)

lemma good_istringstream [simp]: "good (istringstream str)" "buf (istringstream str) = str"
  by (simp_all add: istringstream_def good_def)

lemma get_istringstream_Cons: "get (istringstream (x # xs)) = (Some x, istringstream xs)"
  by (simp add: get_def istringstream_def good_def)

lemma get_istringstream_Nil: "get (istringstream []) = (None, exhausted (istringstream []))"
  by (simp add: get_def istringstream_def good_def exhausted_def)

lemma peek_istringstream_Cons: "peek (istringstream (x # xs)) = (Some x, istringstream (x # xs))"
  by (simp add: peek_def istringstream_def good_def)

lemma get_not_good: "\<not> good s \<Longrightarrow> get s = (None, s\<lparr>failbit := True\<rparr>)"
  by (simp add: get_def)

lemma ReadString_loop_not_good:
  "\<not> good s \<Longrightarrow> ReadString_loop first c line s = (c, line, s\<lparr>failbit := True\<rparr>)"
  by (simp add: ReadString_loop.simps [of first c line s] get_not_good)

text \<open>
  The loop of \<^verbatim>\<open>ReadString\<close> on a text \<open>xs\<close> alone: if it ends with the closing quote in
  \<^verbatim>\<open>c\<close>, it has met that quote inside \<open>xs\<close>, and it does the same whatever follows \<open>xs\<close>.
\<close>

lemma ReadString_loop_local:
  assumes "first \<noteq> BACKSLASH" and "c \<noteq> Some first"
    and "ReadString_loop first c line (istringstream xs) = (Some first, line1, s1)"
  shows "\<exists>xs1. s1 = istringstream xs1 \<and>
           (\<forall>ys. ReadString_loop first c line (istringstream (xs @ ys)) =
                  (Some first, line1, istringstream (xs1 @ ys)))"
  using assms(2,3)
proof (induction "length xs" arbitrary: xs c line rule: less_induct)
  case less
  show ?case
  proof (cases xs)
    case Nil
    with less.prems show ?thesis
      by (simp add: ReadString_loop.simps [of first c line] get_istringstream_Nil)
  next
    case (Cons x xs2)
    show ?thesis
    proof (cases "x = BACKSLASH")
      case True
      show ?thesis
      proof (cases xs2)
        case Nil
        have "ReadString_loop first c line (istringstream xs) =
            (Some BACKSLASH, line, (exhausted (istringstream []))\<lparr>failbit := True\<rparr>)"
          using Cons True Nil
          by (simp add: ReadString_loop.simps [of first c line] get_istringstream_Cons
                get_istringstream_Nil ReadString_loop_not_good escape_def)
        with less.prems(2) assms(1) show ?thesis
          by simp
      next
        case (Cons y xs3)
        have step: "ReadString_loop first c line (istringstream (xs @ ys)) =
            ReadString_loop first (Some BACKSLASH) (line @ escape (Some y))
              (istringstream (xs3 @ ys))" for ys
          using \<open>xs = x # xs2\<close> True Cons
          by (simp add: ReadString_loop.simps [of first c line] get_istringstream_Cons)
        from step [of "[]"] less.prems(2)
        have "ReadString_loop first (Some BACKSLASH) (line @ escape (Some y))
              (istringstream xs3) = (Some first, line1, s1)"
          by simp
        moreover have "length xs3 < length xs"
          using \<open>xs = x # xs2\<close> Cons by simp
        moreover have "Some BACKSLASH \<noteq> Some first"
          using assms(1) by simp
        ultimately have "\<exists>xs1. s1 = istringstream xs1 \<and>
           (\<forall>ys. ReadString_loop first (Some BACKSLASH) (line @ escape (Some y))
                    (istringstream (xs3 @ ys)) =
                  (Some first, line1, istringstream (xs1 @ ys)))"
          using less.hyps [of xs3 "Some BACKSLASH" "line @ escape (Some y)"] by simp
        then show ?thesis
          by (simp only: step)
      qed
    next
      case False
      show ?thesis
      proof (cases "x = first")
        case True
        have "ReadString_loop first c line (istringstream (xs @ ys)) =
            (Some first, line, istringstream (xs2 @ ys))" for ys
          using Cons True False
          by (simp add: ReadString_loop.simps [of first c line] get_istringstream_Cons)
        with less.prems(2) show ?thesis
          by (metis append_Nil2 prod.inject)
      next
        case nf: False
        have step: "ReadString_loop first c line (istringstream (xs @ ys)) =
            ReadString_loop first (Some x) (line @ [x]) (istringstream (xs2 @ ys))" for ys
          using Cons False nf
          by (simp add: ReadString_loop.simps [of first c line] get_istringstream_Cons)
        from step [of "[]"] less.prems(2)
        have "ReadString_loop first (Some x) (line @ [x]) (istringstream xs2) =
            (Some first, line1, s1)"
          by simp
        moreover have "length xs2 < length xs"
          using Cons by simp
        moreover have "Some x \<noteq> Some first"
          using nf by simp
        ultimately have "\<exists>xs1. s1 = istringstream xs1 \<and>
           (\<forall>ys. ReadString_loop first (Some x) (line @ [x]) (istringstream (xs2 @ ys)) =
                  (Some first, line1, istringstream (xs1 @ ys)))"
          using less.hyps [of xs2 "Some x" "line @ [x]"] by simp
        then show ?thesis
          by (simp only: step)
      qed
    qed
  qed
qed

text \<open>\<^verbatim>\<open>ReadString\<close> on a text alone either throws or does the same whatever follows the text.\<close>

lemma ReadString_local:
  assumes "q = DQUOTE \<or> q = SQUOTE"
  shows "(\<exists>e. ReadString (istringstream (q # xs)) = Inl e) \<or>
         (\<exists>v xs1. \<forall>ys. ReadString (istringstream (q # xs @ ys)) = Inr (v, istringstream (xs1 @ ys)))"
proof (cases "ReadString_loop q None [] (istringstream xs)")
  case (fields c line1 s1)
  have nb: "q \<noteq> BACKSLASH"
    using assms by auto
  show ?thesis
  proof (cases "c = Some q")
    case True
    with fields nb obtain xs1 where xs1: "s1 = istringstream xs1"
      "\<And>ys. ReadString_loop q None [] (istringstream (xs @ ys)) =
            (Some q, line1, istringstream (xs1 @ ys))"
      using ReadString_loop_local [of q None "[]" xs line1 s1] by auto
    have "ReadString (istringstream (q # xs @ ys)) = Inr (line1, istringstream (xs1 @ ys))" for ys
      using xs1(2) [of ys]
      by (simp add: ReadString_def get_istringstream_Cons to_char_def)
    then show ?thesis
      by blast
  next
    case False
    with fields have "\<exists>e. ReadString (istringstream (q # xs)) = Inl e"
      by (cases c) (simp_all add: ReadString_def get_istringstream_Cons to_char_def)
    then show ?thesis
      by blast
  qed
qed

subsection \<open>One call before the end of a line, whatever follows the line\<close>

lemma istringstream_buf [simp]: "(istringstream str)\<lparr>buf := str1\<rparr> = istringstream str1"
  by (simp add: istringstream_def)

text \<open>The stream is updated first: a normal form for lexers that differ in their streams.\<close>

lemma input_inward:
  "input_update f (start_of_line_update g1 l) = start_of_line_update g1 (input_update f l)"
  "input_update f (current_indent_update g2 l) = current_indent_update g2 (input_update f l)"
  "input_update f (line_indent_update g3 l) = line_indent_update g3 (input_update f l)"
  "input_update f (current_token_update g4 l) = current_token_update g4 (input_update f l)"
  by simp_all

lemma tl_dropWhile_LF:
  "LF \<notin> set pre \<Longrightarrow> tl (dropWhile (\<lambda>c. c \<noteq> LF) (pre @ LF # r)) = r"
  by (induction pre) auto

lemma NextLine_istringstream:
  "LF \<notin> set pre \<Longrightarrow>
   NextLine (l\<lparr>input := istringstream (pre @ LF # r)\<rparr>) =
     l\<lparr>input := istringstream r, start_of_line := True, line_indent := 0\<rparr>"
  by (simp add: NextLine_def ReadLine_def case_prod_beta getline_good tl_dropWhile_LF)

lemma staysI:
  assumes "alone sa xsa"
    and "f (l\<lparr>input := istringstream xs\<rparr>) = Inr (la\<lparr>input := sa\<rparr>)"
    and "\<And>w. f (l\<lparr>input := istringstream (xs @ LF # w)\<rparr>) =
              Inr (la\<lparr>input := istringstream (xsa @ LF # w)\<rparr>)"
  shows "stays f l xs"
  unfolding stays_def
  apply (rule exI [of _ la], rule exI [of _ sa], rule exI [of _ xsa])
  apply (intro conjI allI)
    apply (fact assms)+
  done

lemma leavesI_return:
  assumes "start_of_line la" and "line_indent la = 0"
    and "\<And>w. ReadNextToken (l\<lparr>input := istringstream (xs @ LF # w)\<rparr>) =
              Inr (la\<lparr>input := istringstream w\<rparr>)"
  shows "leaves l xs"
  unfolding leaves_def
  apply (rule exI [of _ la])
  apply (intro conjI disjI1 allI)
    apply (fact assms)+
  done

lemma leavesI_go_on:
  assumes "start_of_line la" and "line_indent la = 0"
    and "\<And>w. ReadNextToken (l\<lparr>input := istringstream (xs @ LF # w)\<rparr>) =
              ReadNextToken (la\<lparr>input := istringstream w\<rparr>)"
  shows "leaves l xs"
  unfolding leaves_def
  apply (rule exI [of _ la])
  apply (intro conjI disjI2 allI)
    apply (fact assms)+
  done

lemma leaves_Nil: "leaves l []"
proof (cases "start_of_line l")
  case True
  show ?thesis
  proof (rule leavesI_go_on)
    show "start_of_line (l\<lparr>start_of_line := True, line_indent := 0\<rparr>)"
      and "line_indent (l\<lparr>start_of_line := True, line_indent := 0\<rparr>) = 0"
      by simp_all
    show "ReadNextToken (l\<lparr>input := istringstream ([] @ LF # w)\<rparr>) =
        ReadNextToken (l\<lparr>start_of_line := True, line_indent := 0, input := istringstream w\<rparr>)" for w
      using True NextLine_istringstream [where pre = "[]" and l = l and r = w]
      by (simp add: ReadNextToken_LF [of _ w] input_inward)
  qed
next
  case False
  show ?thesis
  proof (rule leavesI_return)
    show "start_of_line (l\<lparr>start_of_line := True, line_indent := 0, current_token := Newline\<rparr>)"
      and "line_indent (l\<lparr>start_of_line := True, line_indent := 0, current_token := Newline\<rparr>) = 0"
      by simp_all
    show "ReadNextToken (l\<lparr>input := istringstream ([] @ LF # w)\<rparr>) =
        Inr (l\<lparr>start_of_line := True, line_indent := 0, current_token := Newline,
               input := istringstream w\<rparr>)" for w
      using False NextLine_istringstream [where pre = "[]" and l = l and r = w]
      by (simp add: ReadNextToken_LF [of _ w] input_inward)
  qed
qed

lemma outcome_transfer:
  assumes aw: "\<And>w. ReadNextToken (l\<lparr>input := istringstream (xs @ LF # w)\<rparr>) =
                   ReadNextToken (la\<lparr>input := istringstream (xsa @ LF # w)\<rparr>)"
    and a0: "xsa \<noteq> [] \<Longrightarrow> ReadNextToken (l\<lparr>input := istringstream xs\<rparr>) =
                   ReadNextToken (la\<lparr>input := istringstream xsa\<rparr>)"
    and out: "outcome la xsa"
  shows "outcome l xs"
proof (cases "xsa = []")
  case True
  have "leaves la []"
    by (rule leaves_Nil)
  then have "leaves l xs"
    unfolding leaves_def True by (simp only: aw [unfolded True])
  then show ?thesis
    by (simp add: outcome_def)
next
  case False
  note a1 = a0 [OF False]
  from out show ?thesis
    unfolding outcome_def throws_def stays_def leaves_def
    by (simp only: aw a1)
qed

lemma at_eof_EOF_CHAR: "at_eof (istringstream (EOF_CHAR # str))"
  by (simp add: at_eof_def peek_istringstream_Cons to_char_def is_eof_def)

lemma ReadNextToken_EOF_CHAR:
  "ReadNextToken (l\<lparr>input := istringstream (EOF_CHAR # str)\<rparr>) =
     Inr (ParseEOF (l\<lparr>input := istringstream (EOF_CHAR # str)\<rparr>))"
  using ReadNextToken_eof [of "l\<lparr>input := istringstream (EOF_CHAR # str)\<rparr>"]
  by (simp add: at_eof_EOF_CHAR peek_istringstream_Cons)

lemma outcome_EOF_CHAR: "outcome l (EOF_CHAR # xs2)"
proof -
  let ?xs = "EOF_CHAR # xs2"
  have rnt: "ReadNextToken (l\<lparr>input := istringstream (?xs @ str)\<rparr>) =
      Inr (ParseEOF (l\<lparr>input := istringstream (?xs @ str)\<rparr>))" for str
    using ReadNextToken_EOF_CHAR [where l = l and str = "xs2 @ str"] by simp
  show ?thesis
  proof (cases "start_of_line l")
    case True
    let ?l1 = "if 0 < current_indent l
               then l\<lparr>current_indent := current_indent l - 1, current_token := Dedent\<rparr>
               else l\<lparr>current_token := Eof\<rparr>"
    have "stays ReadNextToken l ?xs"
    proof (rule staysI [where sa = "istringstream ?xs" and xsa = ?xs and la = ?l1])
      show "alone (istringstream ?xs) ?xs"
        by (simp add: alone_def)
      show "ReadNextToken (l\<lparr>input := istringstream ?xs\<rparr>) =
          Inr (?l1\<lparr>input := istringstream ?xs\<rparr>)"
        using True rnt [of "[]"] by (simp add: ParseEOF_def input_inward)
      show "ReadNextToken (l\<lparr>input := istringstream (?xs @ LF # w)\<rparr>) =
          Inr (?l1\<lparr>input := istringstream (?xs @ LF # w)\<rparr>)" for w
        using True rnt [of "LF # w"] by (simp add: ParseEOF_def input_inward)
    qed
    then show ?thesis
      by (simp add: outcome_def)
  next
    case False
    let ?l1 = "l\<lparr>start_of_line := True, line_indent := 0, current_token := Newline\<rparr>"
    show ?thesis
    proof (cases "LF \<in> set ?xs")
      case True
      then obtain pre post where sp: "?xs = pre @ LF # post" and pre: "LF \<notin> set pre"
        by (meson split_list_first)
      have "stays ReadNextToken l ?xs"
      proof (rule staysI [where sa = "istringstream post" and xsa = post and la = ?l1])
        show "alone (istringstream post) post"
          by (simp add: alone_def)
        show "ReadNextToken (l\<lparr>input := istringstream ?xs\<rparr>) =
            Inr (?l1\<lparr>input := istringstream post\<rparr>)"
          using False rnt [of "[]"] NextLine_istringstream [OF pre, where l = l and r = post]
          by (simp add: ParseEOF_def input_inward sp [symmetric])
        show "ReadNextToken (l\<lparr>input := istringstream (?xs @ LF # w)\<rparr>) =
            Inr (?l1\<lparr>input := istringstream (post @ LF # w)\<rparr>)" for w
        proof -
          have "?xs @ LF # w = pre @ LF # (post @ LF # w)"
            using sp by simp
          then show ?thesis
            using False rnt [of "LF # w"] NextLine_istringstream [OF pre, where l = l and r = "post @ LF # w"]
            by (simp add: ParseEOF_def input_inward)
        qed
      qed
      then show ?thesis
        by (simp add: outcome_def)
    next
      case nin: False
      have "leaves l ?xs"
      proof (rule leavesI_return [where la = ?l1])
        show "start_of_line ?l1" and "line_indent ?l1 = 0"
          by simp_all
        show "ReadNextToken (l\<lparr>input := istringstream (?xs @ LF # w)\<rparr>) =
            Inr (?l1\<lparr>input := istringstream w\<rparr>)" for w
          using False rnt [of "LF # w"] NextLine_istringstream [OF nin, where l = l and r = w]
          by (simp add: ParseEOF_def input_inward)
      qed
      then show ?thesis
        by (simp add: outcome_def)
    qed
  qed
qed

lemma outcome_LF:
  assumes "outcome (l\<lparr>start_of_line := True, line_indent := 0\<rparr>) xs2"
  shows "outcome l (LF # xs2)"
proof -
  let ?l1 = "l\<lparr>start_of_line := True, line_indent := 0\<rparr>"
  have nl: "NextLine (l\<lparr>input := istringstream (LF # str)\<rparr>) = ?l1\<lparr>input := istringstream str\<rparr>"
    for str
    using NextLine_istringstream [where pre = "[]" and l = l and r = str]
    by (simp add: input_inward)
  show ?thesis
  proof (cases "start_of_line l")
    case True
    have rnt: "ReadNextToken (l\<lparr>input := istringstream (LF # str)\<rparr>) =
        ReadNextToken (?l1\<lparr>input := istringstream str\<rparr>)" for str
      using True by (simp add: ReadNextToken_LF [of _ str] nl)
    show ?thesis
    proof (rule outcome_transfer [where la = ?l1 and xsa = xs2])
      show "ReadNextToken (l\<lparr>input := istringstream ((LF # xs2) @ LF # w)\<rparr>) =
          ReadNextToken (?l1\<lparr>input := istringstream (xs2 @ LF # w)\<rparr>)" for w
        using rnt [of "xs2 @ LF # w"] by simp
      show "ReadNextToken (l\<lparr>input := istringstream (LF # xs2)\<rparr>) =
          ReadNextToken (?l1\<lparr>input := istringstream xs2\<rparr>)"
        by (rule rnt)
      show "outcome ?l1 xs2"
        by (rule assms)
    qed
  next
    case False
    let ?l2 = "l\<lparr>start_of_line := True, line_indent := 0, current_token := Newline\<rparr>"
    have rnt: "ReadNextToken (l\<lparr>input := istringstream (LF # str)\<rparr>) =
        Inr (?l2\<lparr>input := istringstream str\<rparr>)" for str
      using False by (simp add: ReadNextToken_LF [of _ str] nl input_inward)
    have "stays ReadNextToken l (LF # xs2)"
    proof (rule staysI [where sa = "istringstream xs2" and xsa = xs2 and la = ?l2])
      show "alone (istringstream xs2) xs2"
        by (simp add: alone_def)
      show "ReadNextToken (l\<lparr>input := istringstream (LF # xs2)\<rparr>) =
          Inr (?l2\<lparr>input := istringstream xs2\<rparr>)"
        by (rule rnt)
      show "ReadNextToken (l\<lparr>input := istringstream ((LF # xs2) @ LF # w)\<rparr>) =
          Inr (?l2\<lparr>input := istringstream (xs2 @ LF # w)\<rparr>)" for w
        using rnt [of "xs2 @ LF # w"] by simp
    qed
    then show ?thesis
      by (simp add: outcome_def)
  qed
qed

lemma outcome_hash:
  assumes "outcome l (dropWhile (\<lambda>c. c \<noteq> LF) xs2)"
  shows "outcome l (CHR ''#'' # xs2)"
proof -
  let ?xs = "CHR ''#'' # xs2"
  let ?xs1 = "dropWhile (\<lambda>c. c \<noteq> LF) xs2"
  have rnt: "ReadNextToken (l\<lparr>input := istringstream (?xs @ str)\<rparr>) =
      ReadNextToken (l\<lparr>input := after_run (\<lambda>c. c \<noteq> LF) (istringstream (?xs @ str))\<rparr>)"
    for str
    by (simp add: ReadNextToken_hash [of _ "xs2 @ str"] skip_comment_def
          ParseComment_loop_after_run)
  show ?thesis
  proof (rule outcome_transfer [where la = l and xsa = ?xs1])
    show "ReadNextToken (l\<lparr>input := istringstream (?xs @ LF # w)\<rparr>) =
        ReadNextToken (l\<lparr>input := istringstream (?xs1 @ LF # w)\<rparr>)" for w
      using rnt [of "LF # w"] after_run_stop [of "\<lambda>c. c \<noteq> LF" LF ?xs w]
      by simp
    show "ReadNextToken (l\<lparr>input := istringstream ?xs\<rparr>) =
        ReadNextToken (l\<lparr>input := istringstream ?xs1\<rparr>)" if "?xs1 \<noteq> []"
      using rnt [of "[]"] that after_run_alone [of "\<lambda>c. c \<noteq> LF" ?xs]
      by (simp del: dropWhile_eq_Nil_conv)
    show "outcome l ?xs1"
      by (rule assms)
  qed
qed

lemma skip_spaces_istringstream:
  "skip_spaces (l\<lparr>input := istringstream str\<rparr>) =
     (if start_of_line l
      then l\<lparr>input := after_run (\<lambda>c. c = CHR '' '') (istringstream str),
             line_indent := ucast ((of_nat (length (takeWhile (\<lambda>c. c = CHR '' '') str)) :: 64 word) div 2)\<rparr>
      else l\<lparr>input := after_run (\<lambda>c. c = CHR '' '') (istringstream str)\<rparr>)"
  by (simp add: skip_spaces_def CountSpaces_good)

lemma outcome_space:
  assumes "\<And>la. outcome la (dropWhile (\<lambda>c. c = CHR '' '') xs2)"
  shows "outcome l (CHR '' '' # xs2)"
proof -
  let ?xs = "CHR '' '' # xs2"
  let ?xs1 = "dropWhile (\<lambda>c. c = CHR '' '') xs2"
  let ?l1 = "if start_of_line l
      then l\<lparr>line_indent := ucast ((of_nat (length (takeWhile (\<lambda>c. c = CHR '' '') ?xs)) :: 64 word) div 2)\<rparr>
      else l"
  have rnt: "ReadNextToken (l\<lparr>input := istringstream (?xs @ str)\<rparr>) =
      ReadNextToken (skip_spaces (l\<lparr>input := istringstream (?xs @ str)\<rparr>))" for str
    by (simp add: ReadNextToken_space [of _ "xs2 @ str"])
  show ?thesis
  proof (rule outcome_transfer [where la = ?l1 and xsa = ?xs1])
    show "ReadNextToken (l\<lparr>input := istringstream (?xs @ LF # w)\<rparr>) =
        ReadNextToken (?l1\<lparr>input := istringstream (?xs1 @ LF # w)\<rparr>)" for w
      using after_run_stop [of "\<lambda>c. c = CHR '' ''" LF ?xs w]
        takeWhile_stop [of "\<lambda>c. c = CHR '' ''" LF ?xs w] rnt [of "LF # w"]
      by (simp add: skip_spaces_istringstream input_inward del: takeWhile.simps)
    show "ReadNextToken (l\<lparr>input := istringstream ?xs\<rparr>) =
        ReadNextToken (?l1\<lparr>input := istringstream ?xs1\<rparr>)" if "?xs1 \<noteq> []"
      using that after_run_alone [of "\<lambda>c. c = CHR '' ''" ?xs] rnt [of "[]"]
      by (simp add: skip_spaces_istringstream input_inward
            del: dropWhile_eq_Nil_conv takeWhile.simps)
    show "outcome ?l1 ?xs1"
      by (rule assms)
  qed
qed

lemma alone_after_run: "alone (after_run P (istringstream xs)) (dropWhile P xs)"
  by (simp add: alone_def after_run_alone del: dropWhile_eq_Nil_conv)

lemma not_IsNum_LF: "\<not> IsNum LF"
  by (simp add: IsNum_def)

lemma not_IsAlNumLL_LF: "\<not> IsAlNumLL LF"
  by (simp add: IsAlNumLL_def IsAlNum_def IsAlpha_def IsNum_def)

lemma ParseToken_number_istringstream:
  assumes "IsNum c"
  shows "ParseToken (l\<lparr>input := istringstream (c # str)\<rparr>) =
     (case stoi (takeWhile IsNum (c # str)) of
        Inl e \<Rightarrow> Inl e
      | Inr v \<Rightarrow> Inr (l\<lparr>input := after_run IsNum (istringstream (c # str)),
                        current_token := Number v\<rparr>))"
  using assms
  by (simp add: ParseToken_def peek_istringstream_Cons to_char_def ReadNumber_def
        ReadNumber_loop_good split: sum.splits)

lemma stays_number:
  assumes "IsNum c"
  shows "throws ParseToken l (c # xs2) \<or> stays ParseToken l (c # xs2)"
proof (cases "stoi (takeWhile IsNum (c # xs2))")
  case (Inl e)
  with assms have "ParseToken (l\<lparr>input := istringstream (c # xs2)\<rparr>) = Inl e"
    by (simp add: ParseToken_number_istringstream del: takeWhile.simps)
  then show ?thesis
    unfolding throws_def by (intro disjI1 exI)
next
  case (Inr v)
  let ?xs = "c # xs2"
  have "stays ParseToken l ?xs"
  proof (rule staysI [where sa = "after_run IsNum (istringstream ?xs)"
        and xsa = "dropWhile IsNum ?xs" and la = "l\<lparr>current_token := Number v\<rparr>"])
    show "alone (after_run IsNum (istringstream ?xs)) (dropWhile IsNum ?xs)"
      by (rule alone_after_run)
    show "ParseToken (l\<lparr>input := istringstream ?xs\<rparr>) =
        Inr (l\<lparr>current_token := Number v, input := after_run IsNum (istringstream ?xs)\<rparr>)"
      using assms Inr
      by (simp add: ParseToken_number_istringstream input_inward del: takeWhile.simps)
    show "ParseToken (l\<lparr>input := istringstream (?xs @ LF # w)\<rparr>) =
        Inr (l\<lparr>current_token := Number v,
               input := istringstream (dropWhile IsNum ?xs @ LF # w)\<rparr>)" for w
      using assms Inr takeWhile_stop [of IsNum LF ?xs w] after_run_stop [of IsNum LF ?xs w]
        ParseToken_number_istringstream [OF assms, where l = l and str = "xs2 @ LF # w"]
      by (simp add: input_inward not_IsNum_LF del: takeWhile.simps dropWhile.simps)
  qed
  then show ?thesis
    by simp
qed

lemma ParseToken_name_istringstream:
  assumes "\<not> IsNum c" and "IsAlNumLL c"
  shows "ParseToken (l\<lparr>input := istringstream (c # str)\<rparr>) =
     Inr (l\<lparr>input := after_run IsAlNumLL (istringstream (c # str)),
            current_token := name_token (takeWhile IsAlNumLL (c # str))\<rparr>)"
  using assms
  by (simp add: ParseToken_def peek_istringstream_Cons to_char_def ParseName_def ReadName_def
        ReadName_loop_good name_token_def split: option.splits)

lemma stays_name:
  assumes "\<not> IsNum c" and "IsAlNumLL c"
  shows "stays ParseToken l (c # xs2)"
proof -
  let ?xs = "c # xs2"
  let ?la = "l\<lparr>current_token := name_token (takeWhile IsAlNumLL ?xs)\<rparr>"
  show ?thesis
  proof (rule staysI [where sa = "after_run IsAlNumLL (istringstream ?xs)"
        and xsa = "dropWhile IsAlNumLL ?xs" and la = ?la])
    show "alone (after_run IsAlNumLL (istringstream ?xs)) (dropWhile IsAlNumLL ?xs)"
      by (rule alone_after_run)
    show "ParseToken (l\<lparr>input := istringstream ?xs\<rparr>) =
        Inr (?la\<lparr>input := after_run IsAlNumLL (istringstream ?xs)\<rparr>)"
      using assms
      by (simp add: ParseToken_name_istringstream input_inward del: takeWhile.simps)
    show "ParseToken (l\<lparr>input := istringstream (?xs @ LF # w)\<rparr>) =
        Inr (?la\<lparr>input := istringstream (dropWhile IsAlNumLL ?xs @ LF # w)\<rparr>)" for w
      using takeWhile_stop [of IsAlNumLL LF ?xs w] after_run_stop [of IsAlNumLL LF ?xs w]
        ParseToken_name_istringstream [OF assms, where l = l and str = "xs2 @ LF # w"]
      by (simp add: input_inward not_IsAlNumLL_LF del: takeWhile.simps dropWhile.simps)
  qed
qed

lemma ParseToken_string_istringstream:
  assumes "\<not> IsNum c" and "\<not> IsAlNumLL c" and "c = DQUOTE \<or> c = SQUOTE"
  shows "ParseToken (l\<lparr>input := istringstream (c # str)\<rparr>) =
     (case ReadString (istringstream (c # str)) of
        Inl e \<Rightarrow> Inl e
      | Inr (v, s1) \<Rightarrow> Inr (l\<lparr>input := s1, current_token := String_tok v\<rparr>))"
  using assms
  by (auto simp: ParseToken_def peek_istringstream_Cons to_char_def split: sum.splits)

lemma stays_string:
  assumes "\<not> IsNum c" and "\<not> IsAlNumLL c" and "c = DQUOTE \<or> c = SQUOTE"
  shows "throws ParseToken l (c # xs2) \<or> stays ParseToken l (c # xs2)"
proof -
  from ReadString_local [OF assms(3), of xs2]
  consider e where "ReadString (istringstream (c # xs2)) = Inl e"
    | v xs1 where "\<And>ys. ReadString (istringstream (c # xs2 @ ys)) =
        Inr (v, istringstream (xs1 @ ys))"
    by blast
  then show ?thesis
  proof cases
    case 1
    then have "ParseToken (l\<lparr>input := istringstream (c # xs2)\<rparr>) = Inl e"
      using assms by (simp add: ParseToken_string_istringstream)
    then show ?thesis
      unfolding throws_def by (intro disjI1 exI)
  next
    case 2
    have "stays ParseToken l (c # xs2)"
    proof (rule staysI [where sa = "istringstream xs1" and xsa = xs1
          and la = "l\<lparr>current_token := String_tok v\<rparr>"])
      show "alone (istringstream xs1) xs1"
        by (simp add: alone_def)
      show "ParseToken (l\<lparr>input := istringstream (c # xs2)\<rparr>) =
          Inr (l\<lparr>current_token := String_tok v, input := istringstream xs1\<rparr>)"
        using 2 [of "[]"] assms
        by (simp add: ParseToken_string_istringstream input_inward)
      show "ParseToken (l\<lparr>input := istringstream ((c # xs2) @ LF # w)\<rparr>) =
          Inr (l\<lparr>current_token := String_tok v, input := istringstream (xs1 @ LF # w)\<rparr>)"
        for w
        using 2 [of "LF # w"] assms
        by (simp add: ParseToken_string_istringstream input_inward)
    qed
    then show ?thesis
      by simp
  qed
qed

lemma DualSymbols_LF: "DualSymbols [c, LF] = None"
  by (simp add: DualSymbols_None)

lemma stays_char:
  assumes "\<not> IsNum c" and "\<not> IsAlNumLL c" and "c \<noteq> DQUOTE" and "c \<noteq> SQUOTE"
  shows "stays ParseToken l (c # xs2)"
proof -
  have pt: "ParseToken (l\<lparr>input := istringstream (c # str)\<rparr>) =
      Inr (ParseChar (l\<lparr>input := istringstream (c # str)\<rparr>))" for str
    using assms ParseToken_ParseChar [of "l\<lparr>input := istringstream (c # str)\<rparr>" c str]
    by simp
  show ?thesis
  proof (cases xs2)
    case Nil
    show ?thesis
    proof (rule staysI [where sa = "(istringstream [])\<lparr>eofbit := True\<rparr>" and xsa = "[]"
          and la = "l\<lparr>current_token := Char_tok c\<rparr>"])
      show "alone ((istringstream [])\<lparr>eofbit := True\<rparr>) []"
        by (simp add: alone_def)
      show "ParseToken (l\<lparr>input := istringstream (c # xs2)\<rparr>) =
          Inr (l\<lparr>current_token := Char_tok c, input := (istringstream [])\<lparr>eofbit := True\<rparr>\<rparr>)"
        using Nil ParseChar_last [of "l\<lparr>input := istringstream [c]\<rparr>" c]
        by (simp add: pt input_inward)
      show "ParseToken (l\<lparr>input := istringstream ((c # xs2) @ LF # w)\<rparr>) =
          Inr (l\<lparr>current_token := Char_tok c, input := istringstream ([] @ LF # w)\<rparr>)" for w
        using Nil ParseChar_single [of "l\<lparr>input := istringstream (c # LF # w)\<rparr>" c LF w]
        by (simp add: pt input_inward DualSymbols_LF)
    qed
  next
    case (Cons d xs3)
    show ?thesis
    proof (cases "DualSymbols [c, d]")
      case None
      show ?thesis
      proof (rule staysI [where sa = "istringstream (d # xs3)" and xsa = "d # xs3"
            and la = "l\<lparr>current_token := Char_tok c\<rparr>"])
        show "alone (istringstream (d # xs3)) (d # xs3)"
          by (simp add: alone_def)
        show "ParseToken (l\<lparr>input := istringstream (c # xs2)\<rparr>) =
            Inr (l\<lparr>current_token := Char_tok c, input := istringstream (d # xs3)\<rparr>)"
          using Cons None ParseChar_single [of "l\<lparr>input := istringstream (c # d # xs3)\<rparr>" c d xs3]
          by (simp add: pt input_inward)
        show "ParseToken (l\<lparr>input := istringstream ((c # xs2) @ LF # w)\<rparr>) =
            Inr (l\<lparr>current_token := Char_tok c, input := istringstream ((d # xs3) @ LF # w)\<rparr>)"
          for w
          using Cons None
            ParseChar_single [of "l\<lparr>input := istringstream (c # d # xs3 @ LF # w)\<rparr>" c d
              "xs3 @ LF # w"]
          by (simp add: pt input_inward)
      qed
    next
      case (Some t)
      show ?thesis
      proof (rule staysI [where sa = "istringstream xs3" and xsa = xs3
            and la = "l\<lparr>current_token := t\<rparr>"])
        show "alone (istringstream xs3) xs3"
          by (simp add: alone_def)
        show "ParseToken (l\<lparr>input := istringstream (c # xs2)\<rparr>) =
            Inr (l\<lparr>current_token := t, input := istringstream xs3\<rparr>)"
          using Cons Some ParseChar_pair [of "l\<lparr>input := istringstream (c # d # xs3)\<rparr>" c d xs3 t]
          by (simp add: pt input_inward)
        show "ParseToken (l\<lparr>input := istringstream ((c # xs2) @ LF # w)\<rparr>) =
            Inr (l\<lparr>current_token := t, input := istringstream (xs3 @ LF # w)\<rparr>)" for w
          using Cons Some
            ParseChar_pair [of "l\<lparr>input := istringstream (c # d # xs3 @ LF # w)\<rparr>" c d
              "xs3 @ LF # w" t]
          by (simp add: pt input_inward)
      qed
    qed
  qed
qed

lemma stays_ParseToken: "throws ParseToken l (c # xs2) \<or> stays ParseToken l (c # xs2)"
proof (cases "IsNum c")
  case True
  then show ?thesis by (rule stays_number)
next
  case nn: False
  show ?thesis
  proof (cases "IsAlNumLL c")
    case True
    with nn show ?thesis by (simp add: stays_name)
  next
    case na: False
    show ?thesis
    proof (cases "c = DQUOTE \<or> c = SQUOTE")
      case True
      with nn na show ?thesis by (rule stays_string)
    next
      case False
      with nn na show ?thesis by (simp add: stays_char)
    qed
  qed
qed

lemma ParseIndent_input: "ParseIndent (l\<lparr>input := s\<rparr>) = (ParseIndent l)\<lparr>input := s\<rparr>"
  by (simp add: ParseIndent_def)

lemma outcome_token:
  assumes "c \<noteq> EOF_CHAR" and "c \<noteq> LF" and "c \<noteq> CHR ''#''" and "c \<noteq> CHR '' ''"
  shows "outcome l (c # xs2)"
proof -
  let ?xs = "c # xs2"
  have rnt: "ReadNextToken (l\<lparr>input := istringstream (c # str)\<rparr>) =
      (if start_of_line l \<and> current_indent l \<noteq> line_indent l
       then Inr ((ParseIndent l)\<lparr>input := istringstream (c # str)\<rparr>)
       else (case ParseToken (l\<lparr>input := istringstream (c # str)\<rparr>) of
               Inl e \<Rightarrow> Inl e
             | Inr l2 \<Rightarrow> Inr (l2\<lparr>start_of_line := False\<rparr>)))" for str
    using assms ReadNextToken_token [of "l\<lparr>input := istringstream (c # str)\<rparr>" c str]
    by (simp add: ParseIndent_input)
  show ?thesis
  proof (cases "start_of_line l \<and> current_indent l \<noteq> line_indent l")
    case True
    have "stays ReadNextToken l ?xs"
    proof (rule staysI [where sa = "istringstream ?xs" and xsa = ?xs and la = "ParseIndent l"])
      show "alone (istringstream ?xs) ?xs"
        by (simp add: alone_def)
      show "ReadNextToken (l\<lparr>input := istringstream ?xs\<rparr>) =
          Inr ((ParseIndent l)\<lparr>input := istringstream ?xs\<rparr>)"
        using True by (simp add: rnt)
      show "ReadNextToken (l\<lparr>input := istringstream (?xs @ LF # w)\<rparr>) =
          Inr ((ParseIndent l)\<lparr>input := istringstream (?xs @ LF # w)\<rparr>)" for w
        using True rnt [of "xs2 @ LF # w"] by simp
    qed
    then show ?thesis
      by (simp add: outcome_def)
  next
    case False
    have rnt1: "ReadNextToken (l\<lparr>input := istringstream (c # str)\<rparr>) =
        (case ParseToken (l\<lparr>input := istringstream (c # str)\<rparr>) of
           Inl e \<Rightarrow> Inl e
         | Inr l2 \<Rightarrow> Inr (l2\<lparr>start_of_line := False\<rparr>))" for str
      by (simp only: rnt [of str] if_not_P [OF False])
    from stays_ParseToken [of l c xs2] show ?thesis
    proof
      assume "throws ParseToken l ?xs"
      then obtain e where "ParseToken (l\<lparr>input := istringstream ?xs\<rparr>) = Inl e"
        unfolding throws_def by blast
      then have "ReadNextToken (l\<lparr>input := istringstream ?xs\<rparr>) = Inl e"
        by (simp add: rnt1)
      then have "throws ReadNextToken l ?xs"
        unfolding throws_def by (rule exI)
      then show ?thesis
        by (simp add: outcome_def)
    next
      assume "stays ParseToken l ?xs"
      then obtain la sa xsa
        where al: "alone sa xsa"
          and p0: "ParseToken (l\<lparr>input := istringstream ?xs\<rparr>) = Inr (la\<lparr>input := sa\<rparr>)"
          and pw: "\<And>w. ParseToken (l\<lparr>input := istringstream (?xs @ LF # w)\<rparr>) =
                Inr (la\<lparr>input := istringstream (xsa @ LF # w)\<rparr>)"
        unfolding stays_def by blast
      have "stays ReadNextToken l ?xs"
      proof (rule staysI [where sa = sa and xsa = xsa and la = "la\<lparr>start_of_line := False\<rparr>"])
        show "alone sa xsa"
          by (rule al)
        show "ReadNextToken (l\<lparr>input := istringstream ?xs\<rparr>) =
            Inr (la\<lparr>start_of_line := False, input := sa\<rparr>)"
          using p0 by (simp add: rnt1 input_inward)
        show "ReadNextToken (l\<lparr>input := istringstream (?xs @ LF # w)\<rparr>) =
            Inr (la\<lparr>start_of_line := False, input := istringstream (xsa @ LF # w)\<rparr>)" for w
          using pw [of w] rnt1 [of "xs2 @ LF # w"] by (simp add: input_inward)
      qed
      then show ?thesis
        by (simp add: outcome_def)
    qed
  qed
qed

text \<open>
  One call of \<^verbatim>\<open>ReadNextToken\<close> at any place \<open>xs\<close> before the end of a line: on \<open>xs\<close> alone it
  throws, or it returns and does the same whatever follows the line feed, or it reads
  past the line feed.
\<close>

lemma outcome_all: "outcome l xs"
proof (induction "length xs" arbitrary: l xs rule: less_induct)
  case less
  show ?case
  proof (cases xs)
    case Nil
    then show ?thesis
      by (simp add: outcome_def leaves_Nil)
  next
    case (Cons c xs2)
    have shorter: "length (dropWhile P xs2) < length xs" for P
      using length_dropWhile_le [of P xs2] Cons by simp
    consider "c = EOF_CHAR" | "c = LF" | "c = CHR ''#''" | "c = CHR '' ''"
      | "c \<noteq> EOF_CHAR" "c \<noteq> LF" "c \<noteq> CHR ''#''" "c \<noteq> CHR '' ''"
      by blast
    then show ?thesis
    proof cases
      case 1
      with Cons show ?thesis by (simp add: outcome_EOF_CHAR)
    next
      case 2
      have "outcome (l\<lparr>start_of_line := True, line_indent := 0\<rparr>) xs2"
        using Cons by (intro less) simp
      with 2 Cons show ?thesis by (simp add: outcome_LF)
    next
      case 3
      have "outcome l (dropWhile (\<lambda>c. c \<noteq> LF) xs2)"
        by (intro less shorter)
      with 3 Cons show ?thesis by (simp add: outcome_hash)
    next
      case 4
      have "outcome la (dropWhile (\<lambda>c. c = CHR '' '') xs2)" for la
        by (intro less shorter)
      with 4 Cons show ?thesis by (simp add: outcome_space)
    next
      case 5
      with Cons show ?thesis by (simp add: outcome_token)
    qed
  qed
qed

subsection \<open>A blank line is read over\<close>

lemma start_of_line_same: "start_of_line l \<Longrightarrow> l\<lparr>start_of_line := True\<rparr> = l"
  by (cases l) simp

lemma after_empty_line:
  assumes "start_of_line l"
  shows "ReadNextToken (l\<lparr>input := istringstream (LF # rest)\<rparr>) =
         ReadNextToken (l\<lparr>input := istringstream rest, line_indent := 0\<rparr>)"
proof -
  have "NextLine (l\<lparr>input := istringstream (LF # rest)\<rparr>) =
      (l\<lparr>start_of_line := True\<rparr>)\<lparr>input := istringstream rest, line_indent := 0\<rparr>"
    using NextLine_istringstream [where pre = "[]" and l = l and r = rest]
    by (simp add: input_inward)
  then show ?thesis
    using assms by (simp add: ReadNextToken_LF [of _ rest] start_of_line_same)
qed

lemma after_comment_line:
  assumes "start_of_line l" and "LF \<notin> set cm"
  shows "ReadNextToken (l\<lparr>input := istringstream (CHR ''#'' # cm @ LF # rest)\<rparr>) =
         ReadNextToken (l\<lparr>input := istringstream rest, line_indent := 0\<rparr>)"
proof -
  have "dropWhile (\<lambda>c. c \<noteq> LF) (CHR ''#'' # cm) = []"
    using assms(2) by auto
  then have "after_run (\<lambda>c. c \<noteq> LF) (istringstream ((CHR ''#'' # cm) @ LF # rest)) =
      istringstream (LF # rest)"
    using after_run_stop [of "\<lambda>c. c \<noteq> LF" LF "CHR ''#'' # cm" rest]
    by (simp del: dropWhile_eq_Nil_conv dropWhile.simps)
  then have "ReadNextToken (l\<lparr>input := istringstream (CHR ''#'' # cm @ LF # rest)\<rparr>) =
      ReadNextToken (l\<lparr>input := istringstream (LF # rest)\<rparr>)"
    by (simp add: ReadNextToken_hash [of _ "cm @ LF # rest"] skip_comment_def
          ParseComment_loop_after_run)
  with assms(1) show ?thesis
    by (simp add: after_empty_line)
qed

lemma after_spaceless_blank_line:
  assumes "start_of_line l" and "LF \<notin> set cm" and "cm = [] \<or> hd cm = CHR ''#''"
  shows "ReadNextToken (l\<lparr>input := istringstream (cm @ LF # rest)\<rparr>) =
         ReadNextToken (l\<lparr>input := istringstream rest, line_indent := 0\<rparr>)"
proof (cases cm)
  case Nil
  with assms(1) show ?thesis
    by (simp add: after_empty_line)
next
  case (Cons c cm2)
  with assms(3) have "c = CHR ''#''"
    by simp
  with Cons assms(1,2) show ?thesis
    using after_comment_line [of l cm2 rest] by simp
qed

lemma blank_line_comment:
  "blank_line sep \<Longrightarrow>
   dropWhile (\<lambda>c. c = CHR '' '') sep = [] \<or> hd (dropWhile (\<lambda>c. c = CHR '' '') sep) = CHR ''#''"
  by (cases "dropWhile (\<lambda>c. c = CHR '' '') sep")
     (simp_all add: blank_line_def del: dropWhile_eq_Nil_conv)

lemma after_blank_line:
  assumes "blank_line sep" and "LF \<notin> set sep" and "start_of_line l"
  shows "ReadNextToken (l\<lparr>input := istringstream (sep @ LF # rest)\<rparr>) =
         ReadNextToken (l\<lparr>input := istringstream rest, line_indent := 0\<rparr>)"
proof -
  let ?cm = "dropWhile (\<lambda>c. c = CHR '' '') sep"
  have cm: "LF \<notin> set ?cm" "?cm = [] \<or> hd ?cm = CHR ''#''"
    using assms(1,2) set_dropWhileD [of LF "\<lambda>c. c = CHR '' ''" sep]
    by (auto dest: blank_line_comment)
  show ?thesis
  proof (cases sep)
    case Nil
    with assms(3) show ?thesis
      by (simp add: after_empty_line)
  next
    case (Cons c sep2)
    show ?thesis
    proof (cases "c = CHR '' ''")
      case False
      with Cons have "?cm = sep"
        by simp
      with cm assms(3) show ?thesis
        using after_spaceless_blank_line [of l sep rest] by simp
    next
      case True
      let ?l1 = "l\<lparr>line_indent :=
          ucast ((of_nat (length (takeWhile (\<lambda>c. c = CHR '' '') sep)) :: 64 word) div 2)\<rparr>"
      have "after_run (\<lambda>c. c = CHR '' '') (istringstream (sep @ LF # rest)) =
          istringstream (?cm @ LF # rest)"
        by (rule after_run_stop) simp
      moreover have "takeWhile (\<lambda>c. c = CHR '' '') (sep @ LF # rest) =
          takeWhile (\<lambda>c. c = CHR '' '') sep"
        by (rule takeWhile_stop) simp
      ultimately have "skip_spaces (l\<lparr>input := istringstream (sep @ LF # rest)\<rparr>) =
          ?l1\<lparr>input := istringstream (?cm @ LF # rest)\<rparr>"
        using assms(3) by (simp add: skip_spaces_istringstream input_inward)
      then have "ReadNextToken (l\<lparr>input := istringstream (sep @ LF # rest)\<rparr>) =
          ReadNextToken (?l1\<lparr>input := istringstream (?cm @ LF # rest)\<rparr>)"
        using Cons True
          ReadNextToken_space [of "l\<lparr>input := istringstream (sep @ LF # rest)\<rparr>" "sep2 @ LF # rest"]
        by simp
      also have "\<dots> = ReadNextToken (?l1\<lparr>input := istringstream rest, line_indent := 0\<rparr>)"
        using cm assms(3) after_spaceless_blank_line [of ?l1 ?cm rest] by simp
      also have "\<dots> = ReadNextToken (l\<lparr>input := istringstream rest, line_indent := 0\<rparr>)"
        by (simp add: input_inward)
      finally show ?thesis .
    qed
  qed
qed

subsection \<open>The tokens with and without the blank line\<close>

lemma seen_0 [simp]: "seen ([], Inr l) = ([], None)"
  by (simp add: seen_def thrown_def)

lemma seen_Suc:
  "seen (NextTokens (Suc n) l) =
     (case ReadNextToken l of
        Inl e \<Rightarrow> ([], Some e)
      | Inr l1 \<Rightarrow> (current_token l1 # fst (seen (NextTokens n l1)),
                   snd (seen (NextTokens n l1))))"
proof (cases "ReadNextToken l")
  case (Inl e)
  then show ?thesis
    by (simp add: seen_def thrown_def NextToken_def)
next
  case (Inr l1)
  then show ?thesis
    by (cases "NextTokens n l1") (simp add: seen_def NextToken_def)
qed

lemma Scan_seen: "Scan n str = seen (NextTokens (Suc n) (initial (istringstream str)))"
  by (simp add: Scan_NextTokens seen_def split: prod.splits del: NextTokens.simps)

lemma reaches_eof_no_throw: "reaches_eof l \<Longrightarrow> ReadNextToken l \<noteq> Inl e"
proof
  assume "reaches_eof l" and thr: "ReadNextToken l = Inl e"
  then obtain k ts r where "NextTokens (Suc k) l = (ts @ [Eof], r)"
    unfolding reaches_eof_def by blast
  moreover have "NextTokens (Suc k) l = ([], Inl e)"
    using thr by (simp add: NextToken_def)
  ultimately show False
    by simp
qed

lemma eof_state_reaches_eof: "eof_state l \<Longrightarrow> reaches_eof l"
proof -
  assume "eof_state l"
  from eof_state_NextTokens [OF this, of "Suc 0"] obtain l1
    where "NextTokens (Suc 0) l = ([] @ [Eof], Inr l1)"
    by auto
  then show ?thesis
    unfolding reaches_eof_def by blast
qed

lemma reaches_eof_step:
  assumes "reaches_eof l" and "ReadNextToken l = Inr l1"
  shows "reaches_eof l1"
proof -
  from assms(1) obtain k ts r where run: "NextTokens (Suc k) l = (ts @ [Eof], r)"
    unfolding reaches_eof_def by blast
  obtain ts1 r1 where run1: "NextTokens k l1 = (ts1, r1)"
    by (cases "NextTokens k l1")
  from run run1 assms(2) have toks: "current_token l1 # ts1 = ts @ [Eof]" and "r1 = r"
    by (simp_all add: NextToken_def)
  show ?thesis
  proof (cases ts1 rule: rev_cases)
    case Nil
    with toks have "current_token l1 = Eof"
      by simp
    with assms(2) have "eof_state l1"
      by (rule ReadNextToken_Eof_state)
    then show ?thesis
      by (rule eof_state_reaches_eof)
  next
    case (snoc ts2 t)
    with toks have "t = Eof"
      by (cases ts) simp_all
    with snoc run1 obtain k1 where "k = Suc k1"
      by (cases k) auto
    with run1 snoc \<open>t = Eof\<close> show ?thesis
      unfolding reaches_eof_def by blast
  qed
qed

lemma run_after_blank_line:
  assumes "blank_line sep" and "LF \<notin> set sep" and "start_of_line l" and "line_indent l = 0"
  shows "seen (NextTokens n (l\<lparr>input := istringstream (sep @ LF # rest)\<rparr>)) =
         seen (NextTokens n (l\<lparr>input := istringstream rest\<rparr>))"
proof (cases n)
  case 0
  then show ?thesis
    by simp
next
  case (Suc m)
  have "l\<lparr>input := istringstream rest, line_indent := 0\<rparr> = l\<lparr>input := istringstream rest\<rparr>"
    using assms(4) by (cases l) simp
  then have "ReadNextToken (l\<lparr>input := istringstream (sep @ LF # rest)\<rparr>) =
      ReadNextToken (l\<lparr>input := istringstream rest\<rparr>)"
    using after_blank_line [OF assms(1-3), of rest] by simp
  then show ?thesis
    by (simp only: Suc seen_Suc)
qed

lemma run_before_line_end:
  assumes sep: "blank_line sep" "LF \<notin> set sep"
    and "xs \<noteq> [] \<longrightarrow> reaches_eof (l\<lparr>input := istringstream xs\<rparr>)"
  shows "seen (NextTokens n (l\<lparr>input := istringstream (xs @ LF # sep @ LF # rest)\<rparr>)) =
         seen (NextTokens n (l\<lparr>input := istringstream (xs @ LF # rest)\<rparr>))"
  using assms(3)
proof (induction n arbitrary: l xs)
  case 0
  show ?case
    by simp
next
  case (Suc n)
  let ?a = "l\<lparr>input := istringstream (xs @ LF # rest)\<rparr>"
  let ?b = "l\<lparr>input := istringstream (xs @ LF # sep @ LF # rest)\<rparr>"
  have left: "seen (NextTokens (Suc n) ?b) = seen (NextTokens (Suc n) ?a)" if "leaves l xs"
  proof -
    from that obtain la
      where la: "start_of_line la" "line_indent la = 0"
        and alt: "(\<forall>w. ReadNextToken (l\<lparr>input := istringstream (xs @ LF # w)\<rparr>) =
                     Inr (la\<lparr>input := istringstream w\<rparr>)) \<or>
                  (\<forall>w. ReadNextToken (l\<lparr>input := istringstream (xs @ LF # w)\<rparr>) =
                     ReadNextToken (la\<lparr>input := istringstream w\<rparr>))"
      unfolding leaves_def by blast
    from alt show ?thesis
    proof
      assume ret: "\<forall>w. ReadNextToken (l\<lparr>input := istringstream (xs @ LF # w)\<rparr>) =
                     Inr (la\<lparr>input := istringstream w\<rparr>)"
      have "seen (NextTokens n (la\<lparr>input := istringstream (sep @ LF # rest)\<rparr>)) =
          seen (NextTokens n (la\<lparr>input := istringstream rest\<rparr>))"
        using sep la by (rule run_after_blank_line)
      then show ?thesis
        by (simp add: seen_Suc ret del: NextTokens.simps)
    next
      assume go: "\<forall>w. ReadNextToken (l\<lparr>input := istringstream (xs @ LF # w)\<rparr>) =
                     ReadNextToken (la\<lparr>input := istringstream w\<rparr>)"
      have "la\<lparr>input := istringstream rest, line_indent := 0\<rparr> = la\<lparr>input := istringstream rest\<rparr>"
        using la(2) by (cases la) simp
      then have "ReadNextToken (la\<lparr>input := istringstream (sep @ LF # rest)\<rparr>) =
          ReadNextToken (la\<lparr>input := istringstream rest\<rparr>)"
        using after_blank_line [OF sep la(1), of rest] by simp
      then show ?thesis
        by (simp add: seen_Suc go del: NextTokens.simps)
    qed
  qed
  show ?case
  proof (cases "xs = []")
    case True
    have "leaves l xs"
      unfolding True by (rule leaves_Nil)
    then show ?thesis
      by (rule left)
  next
    case False
    with Suc.prems have reach: "reaches_eof (l\<lparr>input := istringstream xs\<rparr>)"
      by simp
    from outcome_all [of l xs]
    consider "throws ReadNextToken l xs" | "stays ReadNextToken l xs" | "leaves l xs"
      unfolding outcome_def by blast
    then show ?thesis
    proof cases
      case 1
      with reach show ?thesis
        unfolding throws_def using reaches_eof_no_throw by blast
    next
      case 2
      then obtain la sa xsa
        where al: "alone sa xsa"
          and r0: "ReadNextToken (l\<lparr>input := istringstream xs\<rparr>) = Inr (la\<lparr>input := sa\<rparr>)"
          and rw: "\<And>w. ReadNextToken (l\<lparr>input := istringstream (xs @ LF # w)\<rparr>) =
                Inr (la\<lparr>input := istringstream (xsa @ LF # w)\<rparr>)"
        unfolding stays_def by blast
      from reach r0 have "reaches_eof (la\<lparr>input := sa\<rparr>)"
        by (rule reaches_eof_step)
      with al have "xsa \<noteq> [] \<longrightarrow> reaches_eof (la\<lparr>input := istringstream xsa\<rparr>)"
        by (auto simp: alone_def)
      then have "seen (NextTokens n (la\<lparr>input := istringstream (xsa @ LF # sep @ LF # rest)\<rparr>)) =
          seen (NextTokens n (la\<lparr>input := istringstream (xsa @ LF # rest)\<rparr>))"
        by (rule Suc.IH)
      then show ?thesis
        by (simp add: seen_Suc rw del: NextTokens.simps)
    next
      case 3
      then show ?thesis
        by (rule left)
    qed
  qed
qed

text \<open>
  Blank-line invariance, as the code has it. Let \<open>pre\<close> be a text that scans to \<^verbatim>\<open>Eof\<close> on
  its own without an exception (so no string literal is left open at its end), and \<open>sep\<close>
  a line of spaces, possibly followed by a comment. Then for any text \<open>rest\<close>, the scan of
  \<open>pre\<close>, line feed, \<open>sep\<close>, line feed, \<open>rest\<close> and the scan of \<open>pre\<close>, line feed, \<open>rest\<close>
  give the same tokens and the same exception, however many tokens are asked for.
\<close>

lemma blank_line_invariance:
  assumes "blank_line sep" and "LF \<notin> set sep" and "Scan k pre = (ts @ [Eof], r)"
  shows "Scan n (pre @ LF # sep @ LF # rest) = Scan n (pre @ LF # rest)"
proof -
  define l0 where "l0 = initial (istringstream [])"
  have init: "initial (istringstream str) = l0\<lparr>input := istringstream str\<rparr>" for str
    by (simp add: initial_def l0_def)
  obtain r1 where "NextTokens (Suc k) (initial (istringstream pre)) = (ts @ [Eof], r1)"
    using assms(3) by (cases "NextTokens (Suc k) (initial (istringstream pre))")
      (simp add: Scan_NextTokens del: NextTokens.simps)
  then have "reaches_eof (initial (istringstream pre))"
    unfolding reaches_eof_def by blast
  then have "reaches_eof (l0\<lparr>input := istringstream pre\<rparr>)"
    by (simp only: init)
  then have "seen (NextTokens (Suc n) (l0\<lparr>input := istringstream (pre @ LF # sep @ LF # rest)\<rparr>)) =
      seen (NextTokens (Suc n) (l0\<lparr>input := istringstream (pre @ LF # rest)\<rparr>))"
    using assms(1,2) by (intro run_before_line_end) simp_all
  then show ?thesis
    by (simp only: Scan_seen init)
qed

lemma blank_line_invariance_example:
  "Scan n (''if x:'' @ LF # ''   # then'' @ LF # ''  return x'') =
   Scan n (''if x:'' @ LF # ''  return x'')"
proof -
  have a: "blank_line ''   # then''" "LF \<notin> set ''   # then''"
    by (simp_all add: blank_line_def)
  have b: "Scan 4 ''if x:'' = ([If_tok, Id_tok ''x'', Char_tok (CHR '':''), Newline] @ [Eof], None)"
    by code_simp
  show ?thesis
    using blank_line_invariance [OF a b] by simp
qed

section \<open>The claims\<close>

text \<open>
  One theorem for each claim about the lexer, C1 to C10, with a witness where the theorem
  has a hypothesis, and with a counterexample where the claim as stated fails.
\<close>

text \<open>
  C1. For every input, at an \<^verbatim>\<open>Eof\<close> token (so at the first one) as many \<^verbatim>\<open>Indent\<close> as
  \<^verbatim>\<open>Dedent\<close> tokens have been produced. A call that produces \<^verbatim>\<open>Indent\<close> adds exactly one to
  \<^verbatim>\<open>current_indent_\<close>, a call that produces \<^verbatim>\<open>Dedent\<close> takes exactly one away, a call that
  produces any other token leaves it as it was; and when a call produces \<^verbatim>\<open>Eof\<close>,
  \<^verbatim>\<open>current_indent_\<close> is 0.
\<close>

theorem indent_dedent_balance:
  "(fst (Scan n str) = ts @ Eof # rest \<longrightarrow> count_list ts Indent = count_list ts Dedent) \<and>
   (ReadNextToken l = Inr l1 \<longrightarrow>
      (current_token l1 = Indent \<longrightarrow>
         unat (current_indent l1) = unat (current_indent l) + 1) \<and>
      (current_token l1 = Dedent \<longrightarrow>
         unat (current_indent l1) + 1 = unat (current_indent l)) \<and>
      (current_token l1 \<noteq> Indent \<and> current_token l1 \<noteq> Dedent \<longrightarrow>
         current_indent l1 = current_indent l) \<and>
      (current_token l1 = Eof \<longrightarrow> current_indent l1 = 0))"
proof (intro conjI impI)
  assume toks: "fst (Scan n str) = ts @ Eof # rest"
  obtain r where "NextTokens (Suc n) (initial (istringstream str)) = (ts @ Eof # rest, r)"
    using toks by (cases "NextTokens (Suc n) (initial (istringstream str))")
      (simp add: Scan_NextTokens)
  then have "unat (current_indent (initial (istringstream str))) + count_list ts Indent =
             count_list ts Dedent"
    by (rule NextTokens_balance)
  then show "count_list ts Indent = count_list ts Dedent"
    by (simp add: initial_def)
next
  assume "ReadNextToken l = Inr l1" and "current_token l1 = Indent"
  then show "unat (current_indent l1) = unat (current_indent l) + 1"
    using ReadNextToken_indent_step [of l l1] by (simp add: indent_step_def)
next
  assume "ReadNextToken l = Inr l1" and "current_token l1 = Dedent"
  then show "unat (current_indent l1) + 1 = unat (current_indent l)"
    using ReadNextToken_indent_step [of l l1] by (simp add: indent_step_def)
next
  assume "ReadNextToken l = Inr l1"
    and "current_token l1 \<noteq> Indent \<and> current_token l1 \<noteq> Dedent"
  then show "current_indent l1 = current_indent l"
    using ReadNextToken_indent_step [of l l1] by (simp add: indent_step_def)
next
  assume "ReadNextToken l = Inr l1" and "current_token l1 = Eof"
  then show "current_indent l1 = 0"
    using ReadNextToken_Eof_state [of l l1] by (simp add: eof_state_def)
qed

theorem indent_dedent_balance_witness:
  "fst (Scan 9 (''if x:'' @ [LF] @ ''  return x'' @ [LF])) =
     [If_tok, Id_tok ''x'', Char_tok (CHR '':''), Newline, Indent, Return, Id_tok ''x'',
      Newline, Dedent] @ Eof # [] \<and>
   count_list [If_tok, Id_tok ''x'', Char_tok (CHR '':''), Newline, Indent, Return,
      Id_tok ''x'', Newline, Dedent] Indent =
   count_list [If_tok, Id_tok ''x'', Char_tok (CHR '':''), Newline, Indent, Return,
      Id_tok ''x'', Newline, Dedent] Dedent \<and>
   ReadNextToken (initial (istringstream ''  x'')) =
     Inr \<lparr>input = istringstream ''x'', start_of_line = True, current_indent = 1,
          line_indent = 1, current_token = Indent\<rparr> \<and>
   unat (1 :: 32 word) = unat (current_indent (initial (istringstream ''  x''))) + 1"
proof -
  have a: "fst (Scan 9 (''if x:'' @ [LF] @ ''  return x'' @ [LF])) =
     [If_tok, Id_tok ''x'', Char_tok (CHR '':''), Newline, Indent, Return, Id_tok ''x'',
      Newline, Dedent] @ Eof # []"
    by code_simp
  have b: "ReadNextToken (initial (istringstream ''  x'')) =
     Inr \<lparr>input = istringstream ''x'', start_of_line = True, current_indent = 1,
          line_indent = 1, current_token = Indent\<rparr>"
    by code_simp
  show ?thesis
    using a b
      indent_dedent_balance [of 9 "''if x:'' @ [LF] @ ''  return x'' @ [LF]"
        "[If_tok, Id_tok ''x'', Char_tok (CHR '':''), Newline, Indent, Return, Id_tok ''x'',
          Newline, Dedent]" "[]" "initial (istringstream ''  x'')"
        "\<lparr>input = istringstream ''x'', start_of_line = True, current_indent = 1,
          line_indent = 1, current_token = Indent\<rparr>"]
    by simp
qed

text \<open>
  C2. Scanning \<^verbatim>\<open>if x:\n  return x\n\<close> from a freshly constructed lexer gives the tokens
  If, Id x, Char ':', Newline, Indent, Return, Id x, Newline, Dedent, Eof, in this order, and
  no exception.
\<close>

theorem scan_if_return:
  "Scan 9 (''if x:'' @ [LF] @ ''  return x'' @ [LF]) =
     ([If_tok, Id_tok ''x'', Char_tok (CHR '':''), Newline, Indent, Return, Id_tok ''x'',
       Newline, Dedent, Eof], None)"
  by code_simp

text \<open>
  C3. The claim: a string literal whose closing quote does not come before the end of the
  input or before the end of the line makes \<^verbatim>\<open>ReadString\<close> throw, and no string token is
  produced. The code at the end of the input does so: on double quote, a, b, c the scan
  throws and produces no token. The code at the end of a line does not: on double quote,
  a, line feed, b, double quote \<^verbatim>\<open>ReadString\<close> returns the string a, line feed, b, and the
  scan goes on with that string token.
\<close>

theorem string_runs_across_line_end:
  "Scan 0 ([DQUOTE] @ ''abc'') = ([], Some Failed_to_parse_string) \<and>
   ReadString (istringstream ([DQUOTE] @ ''a'' @ [LF] @ ''b'' @ [DQUOTE])) =
     Inr ([CHR ''a'', LF, CHR ''b''], istringstream []) \<and>
   Scan 2 ([DQUOTE] @ ''a'' @ [LF] @ ''b'' @ [DQUOTE]) =
     ([String_tok [CHR ''a'', LF, CHR ''b''], Newline, Eof], None)"
  by code_simp

text \<open>
  C4. The claim: a line of spaces and/or a comment put between two code lines does not
  change the tokens. The code on the two lines \<^verbatim>\<open>x = \<close>double quote\<^verbatim>\<open>a\<close> and \<^verbatim>\<open>b\<close>double
  quote: with a line of two spaces between them the tokens change, because \<^verbatim>\<open>ReadString\<close>
  reads across the ends of the lines and the line of spaces becomes part of the string
  token. (Lemma \<open>blank_line_invariance\<close> above: the tokens are the same whenever the text
  before the inserted line scans to \<^verbatim>\<open>Eof\<close> on its own.)
\<close>

theorem blank_line_inside_string:
  "Scan 4 (''x = '' @ [DQUOTE] @ ''a'' @ [LF] @ ''b'' @ [DQUOTE]) =
     ([Id_tok ''x'', Char_tok (CHR ''=''), String_tok [CHR ''a'', LF, CHR ''b''], Newline, Eof],
      None) \<and>
   Scan 4 (''x = '' @ [DQUOTE] @ ''a'' @ [LF] @ ''  '' @ [LF] @ ''b'' @ [DQUOTE]) =
     ([Id_tok ''x'', Char_tok (CHR ''=''),
       String_tok [CHR ''a'', LF, CHR '' '', CHR '' '', LF, CHR ''b''], Newline, Eof], None)"
  by code_simp

text \<open>
  C5. When \<^verbatim>\<open>ParseToken\<close> meets a character that is no digit, no name character and no
  quote: if it and the character after it form \<^verbatim>\<open>==\<close>, \<^verbatim>\<open>!=\<close>, \<^verbatim>\<open>>=\<close> or \<^verbatim>\<open><=\<close>, both are
  consumed and the token is \<^verbatim>\<open>Eq\<close>, \<^verbatim>\<open>NotEq\<close>, \<^verbatim>\<open>GreaterOrEq\<close> or \<^verbatim>\<open>LessOrEq\<close>; otherwise
  exactly one character is consumed and the token is \<^verbatim>\<open>Char\<close> of it. The input
  \<^verbatim>\<open>x == 2\n\<close> scans to Id x, Eq, Number 2, Newline, Eof.
\<close>

theorem operator_dispatch:
  "(good (input l) \<and> buf (input l) = c # rest \<and> \<not> IsNum c \<and> \<not> IsAlNumLL c \<and>
    c \<noteq> DQUOTE \<and> c \<noteq> SQUOTE \<longrightarrow>
      (\<exists>l1. ParseToken l = Inr l1 \<and>
         (case rest of
            [] \<Rightarrow> current_token l1 = Char_tok c \<and> buf (input l1) = []
          | d # rest1 \<Rightarrow>
              if [c, d] = ''=='' then current_token l1 = Eq \<and> buf (input l1) = rest1
              else if [c, d] = ''!='' then current_token l1 = NotEq \<and> buf (input l1) = rest1
              else if [c, d] = ''>='' then current_token l1 = GreaterOrEq \<and> buf (input l1) = rest1
              else if [c, d] = ''<='' then current_token l1 = LessOrEq \<and> buf (input l1) = rest1
              else current_token l1 = Char_tok c \<and> buf (input l1) = d # rest1))) \<and>
   Scan 4 (''x == 2'' @ [LF]) = ([Id_tok ''x'', Eq, Number 2, Newline, Eof], None)"
proof (intro conjI impI)
  assume a: "good (input l) \<and> buf (input l) = c # rest \<and> \<not> IsNum c \<and> \<not> IsAlNumLL c \<and>
    c \<noteq> DQUOTE \<and> c \<noteq> SQUOTE"
  then have pt: "ParseToken l = Inr (ParseChar l)"
    by (simp add: ParseToken_ParseChar)
  show "\<exists>l1. ParseToken l = Inr l1 \<and>
         (case rest of
            [] \<Rightarrow> current_token l1 = Char_tok c \<and> buf (input l1) = []
          | d # rest1 \<Rightarrow>
              if [c, d] = ''=='' then current_token l1 = Eq \<and> buf (input l1) = rest1
              else if [c, d] = ''!='' then current_token l1 = NotEq \<and> buf (input l1) = rest1
              else if [c, d] = ''>='' then current_token l1 = GreaterOrEq \<and> buf (input l1) = rest1
              else if [c, d] = ''<='' then current_token l1 = LessOrEq \<and> buf (input l1) = rest1
              else current_token l1 = Char_tok c \<and> buf (input l1) = d # rest1)"
  proof (cases rest)
    case Nil
    with a pt show ?thesis
      by (simp add: ParseChar_last)
  next
    case (Cons d rest1)
    show ?thesis
    proof (cases "DualSymbols [c, d]")
      case None
      with a Cons have "ParseChar l =
          l\<lparr>input := (input l)\<lparr>buf := d # rest1\<rparr>, current_token := Char_tok c\<rparr>"
        by (simp add: ParseChar_single)
      with pt Cons None show ?thesis
        by (simp add: DualSymbols_None)
    next
      case (Some t)
      with a Cons have "ParseChar l = l\<lparr>input := (input l)\<lparr>buf := rest1\<rparr>, current_token := t\<rparr>"
        by (simp add: ParseChar_pair)
      with pt Cons Some show ?thesis
        by (auto simp: DualSymbols_Some)
    qed
  qed
next
  show "Scan 4 (''x == 2'' @ [LF]) = ([Id_tok ''x'', Eq, Number 2, Newline, Eof], None)"
    by code_simp
qed

theorem operator_dispatch_witness:
  "good (input (initial (istringstream ''== 2''))) \<and>
   buf (input (initial (istringstream ''== 2''))) = CHR ''='' # ''= 2'' \<and>
   \<not> IsNum (CHR ''='') \<and> \<not> IsAlNumLL (CHR ''='') \<and>
   (\<exists>l1. ParseToken (initial (istringstream ''== 2'')) = Inr l1 \<and>
         current_token l1 = Eq \<and> buf (input l1) = '' 2'')"
proof -
  have a: "good (input (initial (istringstream ''== 2''))) \<and>
      buf (input (initial (istringstream ''== 2''))) = CHR ''='' # ''= 2'' \<and>
      \<not> IsNum (CHR ''='') \<and> \<not> IsAlNumLL (CHR ''='') \<and>
      CHR ''='' \<noteq> DQUOTE \<and> CHR ''='' \<noteq> SQUOTE"
    by (simp add: initial_def istringstream_def good_def IsNum_def IsAlNumLL_def IsAlNum_def
          IsAlpha_def)
  show ?thesis
    using a operator_dispatch [of "initial (istringstream ''== 2'')" "CHR ''=''" "''= 2''"]
    by simp
qed

text \<open>
  C6. Inside a string literal a backslash followed by a double quote gives a double quote,
  followed by a single quote a single quote, followed by \<^verbatim>\<open>n\<close> a line feed, followed by
  \<^verbatim>\<open>t\<close> a tab, and followed by any other character nothing: the loop of \<^verbatim>\<open>ReadString\<close> goes
  on behind the two characters with just that appended to \<^verbatim>\<open>line\<close>. So the four characters
  double quote, backslash, \<open>x\<close>, double quote read as that string, and the six characters
  double quote, a, backslash, n, b, double quote scan to the string token a, line feed, b.
\<close>

theorem string_escapes:
  "(good s \<and> buf s = BACKSLASH # x # rest \<longrightarrow>
      ReadString_loop first c line s =
        ReadString_loop first (Some BACKSLASH)
          (line @ (if x = DQUOTE then [DQUOTE] else if x = SQUOTE then [SQUOTE]
                   else if x = CHR ''n'' then [LF] else if x = CHR ''t'' then [TAB] else []))
          (s\<lparr>buf := rest\<rparr>)) \<and>
   ReadString (istringstream [DQUOTE, BACKSLASH, x, DQUOTE]) =
     Inr (if x = DQUOTE then [DQUOTE] else if x = SQUOTE then [SQUOTE]
          else if x = CHR ''n'' then [LF] else if x = CHR ''t'' then [TAB] else [],
          istringstream []) \<and>
   Scan 0 [DQUOTE, CHR ''a'', BACKSLASH, CHR ''n'', CHR ''b'', DQUOTE] =
     ([String_tok [CHR ''a'', LF, CHR ''b'']], None)"
proof (intro conjI impI)
  assume "good s \<and> buf s = BACKSLASH # x # rest"
  then show "ReadString_loop first c line s =
        ReadString_loop first (Some BACKSLASH)
          (line @ (if x = DQUOTE then [DQUOTE] else if x = SQUOTE then [SQUOTE]
                   else if x = CHR ''n'' then [LF] else if x = CHR ''t'' then [TAB] else []))
          (s\<lparr>buf := rest\<rparr>)"
    by (simp add: ReadString_loop_backslash escape_def)
next
  have "ReadString_loop DQUOTE None [] \<lparr>buf = [BACKSLASH, x, DQUOTE], eofbit = False, failbit = False\<rparr> =
        ReadString_loop DQUOTE (Some BACKSLASH) (escape (Some x))
          \<lparr>buf = [DQUOTE], eofbit = False, failbit = False\<rparr>"
    by (simp add: ReadString_loop_backslash good_def)
  then show "ReadString (istringstream [DQUOTE, BACKSLASH, x, DQUOTE]) =
     Inr (if x = DQUOTE then [DQUOTE] else if x = SQUOTE then [SQUOTE]
          else if x = CHR ''n'' then [LF] else if x = CHR ''t'' then [TAB] else [],
          istringstream [])"
    by (simp add: ReadString_def istringstream_def get_def good_def to_char_def escape_def
          ReadString_loop.simps [of DQUOTE "Some BACKSLASH"])
next
  show "Scan 0 [DQUOTE, CHR ''a'', BACKSLASH, CHR ''n'', CHR ''b'', DQUOTE] =
     ([String_tok [CHR ''a'', LF, CHR ''b'']], None)"
    by code_simp
qed

theorem string_escapes_witness:
  "good (istringstream [BACKSLASH, CHR ''n'', CHR ''b'', DQUOTE]) \<and>
   buf (istringstream [BACKSLASH, CHR ''n'', CHR ''b'', DQUOTE]) =
     BACKSLASH # CHR ''n'' # [CHR ''b'', DQUOTE] \<and>
   ReadString_loop DQUOTE (Some (CHR ''a'')) ''a''
       (istringstream [BACKSLASH, CHR ''n'', CHR ''b'', DQUOTE]) =
     ReadString_loop DQUOTE (Some BACKSLASH) [CHR ''a'', LF] (istringstream [CHR ''b'', DQUOTE])"
proof -
  have a: "good (istringstream [BACKSLASH, CHR ''n'', CHR ''b'', DQUOTE]) \<and>
      buf (istringstream [BACKSLASH, CHR ''n'', CHR ''b'', DQUOTE]) =
        BACKSLASH # CHR ''n'' # [CHR ''b'', DQUOTE]"
    by (simp add: istringstream_def good_def)
  show ?thesis
    using a string_escapes [of "istringstream [BACKSLASH, CHR ''n'', CHR ''b'', DQUOTE]"
        "CHR ''n''" "[CHR ''b'', DQUOTE]" DQUOTE "Some (CHR ''a'')" "''a''"]
    by (simp add: istringstream_def)
qed

text \<open>
  C7. Once a call has produced \<^verbatim>\<open>Eof\<close>, every later \<^verbatim>\<open>NextToken\<close> call returns \<^verbatim>\<open>Eof\<close>
  again, none throws, and \<^verbatim>\<open>CurrentToken\<close> is \<^verbatim>\<open>Eof\<close> after each of them.
\<close>

theorem eof_is_terminal:
  assumes "ReadNextToken l = Inr l1" and "current_token l1 = Eof"
  shows "\<exists>l2. NextTokens n l1 = (replicate n Eof, Inr l2) \<and> CurrentToken l2 = Eof"
proof -
  have "eof_state l1"
    using assms by (rule ReadNextToken_Eof_state)
  from eof_state_NextTokens [OF this, of n] obtain l2
    where l2: "NextTokens n l1 = (replicate n Eof, Inr l2)"
      and tok: "0 < n \<longrightarrow> current_token l2 = Eof"
    by blast
  show ?thesis
  proof (cases n)
    case 0
    with l2 assms show ?thesis by (simp add: CurrentToken_def)
  next
    case (Suc m)
    with l2 tok show ?thesis by (simp add: CurrentToken_def)
  qed
qed

theorem eof_is_terminal_witness:
  "ReadNextToken (initial (istringstream ''#'')) =
     Inr \<lparr>input = \<lparr>buf = [], eofbit = True, failbit = True\<rparr>, start_of_line = True,
          current_indent = 0, line_indent = 0, current_token = Eof\<rparr> \<and>
   (\<exists>l2. NextTokens 3 \<lparr>input = \<lparr>buf = [], eofbit = True, failbit = True\<rparr>,
            start_of_line = True, current_indent = 0, line_indent = 0, current_token = Eof\<rparr> =
            ([Eof, Eof, Eof], Inr l2) \<and> CurrentToken l2 = Eof)"
proof -
  have a: "ReadNextToken (initial (istringstream ''#'')) =
     Inr \<lparr>input = \<lparr>buf = [], eofbit = True, failbit = True\<rparr>, start_of_line = True,
          current_indent = 0, line_indent = 0, current_token = Eof\<rparr>"
    by code_simp
  show ?thesis
    using a eof_is_terminal [OF a, of 3] by (simp add: numeral_3_eq_3)
qed

text \<open>
  C8, as the code has it. The constructor has already called \<^verbatim>\<open>ReadNextToken\<close>: before the
  first \<^verbatim>\<open>NextToken\<close>, \<^verbatim>\<open>CurrentToken\<close> returns the first token scanned from the input, the
  one an advance from the members' initial values produces, whatever token the member
  \<^verbatim>\<open>current_token_\<close> held before. After an advance \<^verbatim>\<open>CurrentToken\<close> returns the token that
  advance returned. (\<^verbatim>\<open>CurrentToken\<close> is a function of the lexer alone and returns no new
  lexer: it cannot consume input or change the state.)
\<close>

theorem current_token_after_construction:
  "(Lexer s = Inr l \<longrightarrow> NextToken (initial s) = Inr (CurrentToken l, l)) \<and>
   (Lexer s = Inr l \<longrightarrow> ReadNextToken ((initial s)\<lparr>current_token := t\<rparr>) = Inr l) \<and>
   (NextToken l0 = Inr (t1, l1) \<longrightarrow> CurrentToken l1 = t1)"
  by (auto simp: Lexer_def NextToken_def CurrentToken_def ReadNextToken_current_token
           split: sum.splits)

theorem current_token_after_construction_witness:
  "Lexer (istringstream ''x'') =
     Inr \<lparr>input = \<lparr>buf = [], eofbit = True, failbit = True\<rparr>, start_of_line = False,
          current_indent = 0, line_indent = 0, current_token = Id_tok ''x''\<rparr> \<and>
   NextToken (initial (istringstream ''x'')) =
     Inr (Id_tok ''x'',
          \<lparr>input = \<lparr>buf = [], eofbit = True, failbit = True\<rparr>, start_of_line = False,
           current_indent = 0, line_indent = 0, current_token = Id_tok ''x''\<rparr>) \<and>
   ReadNextToken ((initial (istringstream ''x''))\<lparr>current_token := Eof\<rparr>) =
     Inr \<lparr>input = \<lparr>buf = [], eofbit = True, failbit = True\<rparr>, start_of_line = False,
          current_indent = 0, line_indent = 0, current_token = Id_tok ''x''\<rparr>"
proof -
  have a: "Lexer (istringstream ''x'') =
     Inr \<lparr>input = \<lparr>buf = [], eofbit = True, failbit = True\<rparr>, start_of_line = False,
          current_indent = 0, line_indent = 0, current_token = Id_tok ''x''\<rparr>"
    by code_simp
  show ?thesis
    using a current_token_after_construction [of "istringstream ''x''"
        "\<lparr>input = \<lparr>buf = [], eofbit = True, failbit = True\<rparr>, start_of_line = False,
          current_indent = 0, line_indent = 0, current_token = Id_tok ''x''\<rparr>" Eof
        "initial (istringstream ''x'')" "Id_tok ''x''"
        "\<lparr>input = \<lparr>buf = [], eofbit = True, failbit = True\<rparr>, start_of_line = False,
          current_indent = 0, line_indent = 0, current_token = Id_tok ''x''\<rparr>"]
    by (simp add: CurrentToken_def)
qed

text \<open>
  C8 as stated fails: on the input \<^verbatim>\<open>x\<close> the freshly constructed lexer, before any
  \<^verbatim>\<open>NextToken\<close>, has the identifier x as its current token, not the default token, and the
  input has been read.
\<close>

theorem current_token_is_scanned_counterexample:
  "map_sum id CurrentToken (Lexer (istringstream ''x'')) = Inr (Id_tok ''x'') \<and>
   Id_tok ''x'' \<noteq> default_token \<and>
   map_sum id (buf \<circ> input) (Lexer (istringstream ''x'')) = Inr []"
proof -
  have "Lexer (istringstream ''x'') =
     Inr \<lparr>input = \<lparr>buf = [], eofbit = True, failbit = True\<rparr>, start_of_line = False,
          current_indent = 0, line_indent = 0, current_token = Id_tok ''x''\<rparr>"
    by code_simp
  then show ?thesis
    by (simp add: CurrentToken_def default_token_def)
qed

text \<open>
  C9. For every input made of blank material only (line feeds, lines of spaces, lines
  that hold only a comment, and the empty input), the first token is \<^verbatim>\<open>Eof\<close>, and so is
  every token after it: no \<^verbatim>\<open>Newline\<close>, \<^verbatim>\<open>Indent\<close> or \<^verbatim>\<open>Dedent\<close> is produced, and nothing is
  thrown.
\<close>

theorem blank_input_scans_to_eof:
  assumes "blank_input str"
  shows "Scan n str = (replicate (Suc n) Eof, None)"
proof -
  let ?l = "initial (istringstream str)"
  have "\<exists>l1. ReadNextToken ?l = Inr l1 \<and> current_token l1 = Eof"
    using assms by (intro blank_input_ReadNextToken) (simp_all add: initial_def istringstream_def)
  then obtain l1 where l1: "ReadNextToken ?l = Inr l1" "current_token l1 = Eof"
    by blast
  then have "eof_state l1"
    by (rule ReadNextToken_Eof_state)
  from eof_state_NextTokens [OF this, of n] obtain l2
    where run: "NextTokens n l1 = (replicate n Eof, Inr l2)"
    by blast
  have "NextTokens (Suc n) ?l = (current_token l1 # replicate n Eof, Inr l2)"
    using l1(1) run by (rule NextTokens_Suc)
  with l1(2) show ?thesis
    by (simp add: Scan_NextTokens thrown_def del: NextTokens.simps)
qed

theorem blank_input_scans_to_eof_witness:
  "blank_input (''  # c'' @ [LF, LF] @ ''    '') \<and>
   Scan 2 (''  # c'' @ [LF, LF] @ ''    '') = ([Eof, Eof, Eof], None)"
proof -
  have a: "blank_input (''  # c'' @ [LF, LF] @ ''    '')"
    by (simp add: blank_input_def blank_line_def)
  show ?thesis
    using a blank_input_scans_to_eof [OF a, of 2] by (simp add: numeral_2_eq_2)
qed

text \<open>
  C10, as the code has it. When the character sent to \<^verbatim>\<open>ParseChar\<close> is the last of the
  input, the call produces \<^verbatim>\<open>Char\<close> of it and consumes just that character; the next call
  produces \<^verbatim>\<open>Newline\<close>, then one \<^verbatim>\<open>Dedent\<close> follows for each open level of indentation, and
  then \<^verbatim>\<open>Eof\<close>, again and again (directly after \<^verbatim>\<open>Newline\<close> when no level is open, as on
  the input \<^verbatim>\<open>=\<close>).
\<close>

theorem operator_at_end_of_input:
  assumes "good (input l)" and "buf (input l) = [c]"
    and "c \<noteq> EOF_CHAR" and "c \<noteq> LF" and "c \<noteq> CHR ''#''" and "c \<noteq> CHR '' ''"
    and "\<not> IsNum c" and "\<not> IsAlNumLL c" and "c \<noteq> DQUOTE" and "c \<noteq> SQUOTE"
    and "\<not> (start_of_line l \<and> current_indent l \<noteq> line_indent l)"
  shows "\<exists>l1 l2. ReadNextToken l = Inr l1 \<and> current_token l1 = Char_tok c \<and>
           buf (input l1) = [] \<and>
           NextTokens (Suc (unat (current_indent l) + Suc k)) l1 =
             (Newline # replicate (unat (current_indent l)) Dedent @ replicate (Suc k) Eof,
              Inr l2)"
proof -
  define l1 where "l1 = l\<lparr>input := (input l)\<lparr>buf := [], eofbit := True\<rparr>,
      current_token := Char_tok c, start_of_line := False\<rparr>"
  define l2 where "l2 = (NextLine (l1\<lparr>input := snd (peek (input l1))\<rparr>))\<lparr>current_token := Newline\<rparr>"
  have "ParseToken l = Inr (ParseChar l)"
    using assms by (simp add: ParseToken_ParseChar)
  then have first: "ReadNextToken l = Inr l1"
    using assms(1-6)
    by (simp add: ReadNextToken_token [of l c "[]"] if_not_P [OF assms(11)] ParseChar_last
          l1_def)
  have ng: "\<not> good (input l1)"
    by (simp add: l1_def good_def)
  then have second: "ReadNextToken l1 = Inr l2"
    by (simp add: ReadNextToken_eof not_good_at_eof ParseEOF_def l1_def l2_def)
  have "\<not> good (input l2)"
    using ng by (simp add: l2_def NextLine_def ReadLine_def case_prod_beta not_good_peek
          not_good_getline)
  then have "at_eof (input l2)" and "start_of_line l2"
    by (simp_all add: not_good_at_eof l2_def)
  from dedents_then_eof [OF this, of "Suc k"] obtain l3
    where run: "NextTokens (unat (current_indent l2) + Suc k) l2 =
      (replicate (unat (current_indent l2)) Dedent @ replicate (Suc k) Eof, Inr l3)"
    by blast
  have same: "current_indent l2 = current_indent l" and nl: "current_token l2 = Newline"
    by (simp_all add: l2_def l1_def)
  have "NextTokens (Suc (unat (current_indent l2) + Suc k)) l1 =
      (current_token l2 # replicate (unat (current_indent l2)) Dedent @ replicate (Suc k) Eof,
       Inr l3)"
    using second run by (rule NextTokens_Suc)
  then have "NextTokens (Suc (unat (current_indent l) + Suc k)) l1 =
      (Newline # replicate (unat (current_indent l)) Dedent @ replicate (Suc k) Eof, Inr l3)"
    by (simp only: same nl)
  moreover have "current_token l1 = Char_tok c" and "buf (input l1) = []"
    by (simp_all add: l1_def)
  ultimately show ?thesis
    using first by blast
qed

theorem operator_at_end_of_input_witness:
  "\<exists>l1 l2. ReadNextToken \<lparr>input = istringstream ''='', start_of_line = False,
              current_indent = 1, line_indent = 1, current_token = Indent\<rparr> = Inr l1 \<and>
           current_token l1 = Char_tok (CHR ''='') \<and> buf (input l1) = [] \<and>
           NextTokens 3 l1 = ([Newline, Dedent, Eof], Inr l2)"
  using operator_at_end_of_input [of "\<lparr>input = istringstream ''='', start_of_line = False,
              current_indent = 1, line_indent = 1, current_token = Indent\<rparr>" "CHR ''=''" 0]
  by (simp add: istringstream_def good_def IsNum_def IsAlNumLL_def IsAlNum_def IsAlpha_def
        numeral_3_eq_3)

text \<open>
  C10 as stated fails where indentation is open: after \<^verbatim>\<open>a\<close>, line feed, two spaces and
  \<^verbatim>\<open>=\<close>, the \<^verbatim>\<open>Newline\<close> that follows \<^verbatim>\<open>Char\<close> is followed by \<^verbatim>\<open>Dedent\<close>, not by \<^verbatim>\<open>Eof\<close>.
\<close>

theorem operator_at_end_of_input_counterexample:
  "Scan 6 (''a'' @ [LF] @ ''  ='') =
     ([Id_tok ''a'', Newline, Indent, Char_tok (CHR ''=''), Newline, Dedent, Eof], None)"
  by code_simp

end
